theory Spec2Isabelle
  imports Main "HOL-Library.Char_ord" "HOL-Library.List_Lexorder" "HOL-Library.AList"
    "HOL-Library.Multiset"
begin

section \<open>Strings\<close>

text \<open>
  Python strings are modelled as \<^typ>\<open>string\<close>; a \<^typ>\<open>char\<close> stands for a code point
  below 256. Comparison of strings (\<open>>=\<close>, \<open>sorted\<close>) is the lexicographic order on
  code points, which is the order of \<open>HOL-Library.List_Lexorder\<close> over
  \<open>HOL-Library.Char_ord\<close>.
\<close>

definition is_space :: "char \<Rightarrow> bool" where
  \<comment> \<open>\<open>str.isspace\<close> on the code points below 256\<close>
  "is_space c = ((of_char c :: nat) \<in> {9, 10, 11, 12, 13, 28, 29, 30, 31, 32, 133, 160})"

definition strip :: "string \<Rightarrow> string" where
  \<comment> \<open>\<open>s.strip()\<close>\<close>
  "strip s = rev (dropWhile is_space (rev (dropWhile is_space s)))"

definition lower_char :: "char \<Rightarrow> char" where
  "lower_char c = (let n = (of_char c :: nat) in
     if (65 \<le> n \<and> n \<le> 90) \<or> (192 \<le> n \<and> n \<le> 222 \<and> n \<noteq> 215)
     then char_of (n + 32) else c)"

definition lower :: "string \<Rightarrow> string" where
  \<comment> \<open>\<open>s.lower()\<close>\<close>
  "lower s = map lower_char s"

section \<open>Rows\<close>

text \<open>
  A row is the dict that \<open>csv.DictReader\<close> yields: the string-keyed entries in insertion
  order, each holding a string or Python's \<open>None\<close> (the \<open>restval\<close> of a short line), and
  the surplus cells of a long line, which \<open>DictReader\<close> stores under the key \<open>None\<close>
  (empty when there are none).
\<close>

type_synonym cell = "string option"

record row =
  cells :: "(string \<times> cell) list"
  rest :: "string list"

definition get :: "row \<Rightarrow> string \<Rightarrow> cell" where
  \<comment> \<open>\<open>row.get(k)\<close>: \<open>None\<close> for a missing key and for a stored \<open>None\<close>\<close>
  "get r k = (case map_of (cells r) k of None \<Rightarrow> None | Some c \<Rightarrow> c)"

definition or_empty :: "cell \<Rightarrow> string" where
  \<comment> \<open>\<open>v or ""\<close>\<close>
  "or_empty v = (case v of None \<Rightarrow> [] | Some s \<Rightarrow> s)"

definition stripped :: "row \<Rightarrow> string \<Rightarrow> string" where
  \<comment> \<open>\<open>(row.get(k) or "").strip()\<close>\<close>
  "stripped r k = strip (or_empty (get r k))"

section \<open>scripts/team\_ops\_cleanup.py\<close>

definition normalize :: "cell \<Rightarrow> string" where
  \<comment> \<open>\<open>_normalize\<close>\<close>
  "normalize v = lower (strip (or_empty v))"

record SplitResult =
  keep :: "row list"
  archive :: "row list"

text \<open>
  \<open>_split_run_registry\<close> tells rows apart by \<open>id(r)\<close>. The rows of one file are distinct
  objects, so an object is a row together with its position in the list read from the
  file.
\<close>

type_synonym obj = "nat \<times> row"

definition objects :: "row list \<Rightarrow> obj list" where
  "objects rows = enumerate 0 rows"

definition latest_run_step :: "obj \<Rightarrow> (string \<times> obj) list \<Rightarrow> (string \<times> obj) list" where
  \<comment> \<open>the body of the loop of \<open>_latest_run_rows\<close>\<close>
  "latest_run_step r latest =
     (let run_id = stripped (snd r) ''run_id'' in
      if run_id = [] then latest
      else
        let ts = stripped (snd r) ''created_utc'' in
        (case map_of latest run_id of
           None \<Rightarrow> AList.update run_id r latest
         | Some prev \<Rightarrow>
             if ts \<ge> or_empty (get (snd prev) ''created_utc'')
             then AList.update run_id r latest else latest))"

definition latest_run_rows :: "obj list \<Rightarrow> (string \<times> obj) list" where
  \<comment> \<open>\<open>_latest_run_rows\<close>; the dict is an association list in insertion order\<close>
  "latest_run_rows rows = fold latest_run_step rows []"

datatype py_error = KeyError | FileNotFoundError | IndexError

definition split_run_registry ::
  "row list \<Rightarrow> string set \<Rightarrow> bool \<Rightarrow> py_error + (SplitResult \<times> string set)" where
  \<comment> \<open>\<open>_split_run_registry\<close>; \<open>latest[run_id]\<close> raises \<open>KeyError\<close> on a missing key\<close>
  "split_run_registry rows active_run_statuses keep_run_history =
     (let objs = objects rows;
          latest = latest_run_rows objs;
          active_runs = set (map fst
            (filter (\<lambda>(run_id, r). normalize (get (snd r) ''status'') \<in> active_run_statuses)
               latest));
          keep_opt =
            (if keep_run_history
             then Some (filter (\<lambda>r. stripped (snd r) ''run_id'' \<in> active_runs) objs)
             else those (map (map_of latest) (sorted_list_of_set active_runs)))
      in case keep_opt of
           None \<Rightarrow> Inl KeyError
         | Some keep_objs \<Rightarrow>
             let keep_keys = set (map fst keep_objs);
                 archive_objs = filter (\<lambda>r. fst r \<notin> keep_keys) objs
             in Inr (\<lparr>keep = map snd keep_objs, archive = map snd archive_objs\<rparr>,
                     active_runs))"

fun split_by_active_runs_loop ::
  "row list \<Rightarrow> string set \<Rightarrow> row list \<Rightarrow> row list \<Rightarrow> SplitResult" where
  "split_by_active_runs_loop [] active_runs kp ar = \<lparr>keep = kp, archive = ar\<rparr>"
| "split_by_active_runs_loop (r # rows) active_runs kp ar =
     (let run_id = stripped r ''run_id'' in
      if run_id \<noteq> [] \<and> run_id \<in> active_runs
      then split_by_active_runs_loop rows active_runs (kp @ [r]) ar
      else split_by_active_runs_loop rows active_runs kp (ar @ [r]))"

definition split_by_active_runs :: "row list \<Rightarrow> string set \<Rightarrow> SplitResult" where
  \<comment> \<open>\<open>_split_by_active_runs\<close>\<close>
  "split_by_active_runs rows active_runs = split_by_active_runs_loop rows active_runs [] []"

definition superseded_ids :: "row list \<Rightarrow> string set" where
  \<comment> \<open>the set comprehension at the head of \<open>_split_change_requests\<close>\<close>
  "superseded_ids rows =
     set (map (\<lambda>r. stripped r ''supersedes_request_id'')
            (filter (\<lambda>r. stripped r ''supersedes_request_id'' \<noteq> []) rows))"

fun split_change_requests_loop ::
  "row list \<Rightarrow> string set \<Rightarrow> string set \<Rightarrow> string set \<Rightarrow> row list \<Rightarrow> row list \<Rightarrow> SplitResult"
  where
  "split_change_requests_loop [] active_runs active_request_statuses superseded kp ar =
     \<lparr>keep = kp, archive = ar\<rparr>"
| "split_change_requests_loop (r # rows) active_runs active_request_statuses superseded kp ar =
     (let request_id = stripped r ''request_id'';
          run_id = stripped r ''run_id'';
          status = normalize (get r ''status'');
          is_active_status = (status \<in> active_request_statuses);
          is_active_run = (if run_id \<noteq> [] then run_id \<in> active_runs else False);
          is_superseded = (if request_id \<noteq> [] then request_id \<in> superseded else False)
      in if is_active_status \<and> is_active_run \<and> \<not> is_superseded
         then split_change_requests_loop rows active_runs active_request_statuses superseded
                (kp @ [r]) ar
         else split_change_requests_loop rows active_runs active_request_statuses superseded
                kp (ar @ [r]))"

definition split_change_requests ::
  "row list \<Rightarrow> string set \<Rightarrow> string set \<Rightarrow> SplitResult" where
  \<comment> \<open>\<open>_split_change_requests\<close>\<close>
  "split_change_requests rows active_runs active_request_statuses =
     split_change_requests_loop rows active_runs active_request_statuses
       (superseded_ids rows) [] []"

subsection \<open>Files\<close>

text \<open>
  A CSV file is modelled by the list of records that \<open>csv.reader\<close> yields for it, which
  is the list of records that \<open>csv.writer\<close> was given when the file was written (a blank
  line is the empty record); the quoting of cells in the text is not modelled. A JSON file
  is modelled by the value that \<open>json.dumps\<close> was given. The tool reads CSV files only and
  writes JSON only to \<open>manifest.json\<close>, so the two kinds of file are kept in two stores,
  and a path exists for the tool when the CSV store holds a file there. Directories are not
  modelled.
\<close>

type_synonym csv_file = "string list list"

datatype json =
  JStr string | JBool bool | JNum nat | JList "json list" | JObj "(string \<times> json) list"

record fs =
  csv_files :: "string \<rightharpoonup> csv_file"
  json_files :: "string \<rightharpoonup> json"

definition to_dict :: "string list \<Rightarrow> string list \<Rightarrow> row" where
  \<comment> \<open>the dict that \<open>csv.DictReader\<close> builds from one record\<close>
  "to_dict fieldnames record =
     (let d = fold (\<lambda>(k, v). AList.update k (Some v)) (zip fieldnames record) [];
          lf = length fieldnames;
          lr = length record
      in if lf < lr then \<lparr>cells = d, rest = drop lf record\<rparr>
         else if lf > lr
         then \<lparr>cells = fold (\<lambda>k. AList.update k None) (drop lr fieldnames) d, rest = []\<rparr>
         else \<lparr>cells = d, rest = []\<rparr>)"

definition dict_reader :: "csv_file \<Rightarrow> string list \<times> row list" where
  \<comment> \<open>\<open>(reader.fieldnames or [], list(reader))\<close>: the first record is the header, and
      \<open>DictReader\<close> skips the empty records after it\<close>
  "dict_reader records =
     (case records of
        [] \<Rightarrow> ([], [])
      | fieldnames # others \<Rightarrow>
          (fieldnames, map (to_dict fieldnames) (filter (\<lambda>r. r \<noteq> []) others)))"

definition dict_to_list :: "string list \<Rightarrow> row \<Rightarrow> string list" where
  \<comment> \<open>the record that \<open>csv.DictWriter\<close> with \<open>extrasaction="ignore"\<close> writes for a row:
      \<open>rowdict.get(key, "")\<close> for every field name, \<open>None\<close> written as the empty cell\<close>
  "dict_to_list fieldnames r = map (\<lambda>key. or_empty (get r key)) fieldnames"

definition exists :: "fs \<Rightarrow> string \<Rightarrow> bool" where
  "exists f path = (csv_files f path \<noteq> None)"

definition read_csv :: "fs \<Rightarrow> string \<Rightarrow> py_error + (string list \<times> row list)" where
  \<comment> \<open>\<open>_read_csv\<close>\<close>
  "read_csv f path =
     (case csv_files f path of
        None \<Rightarrow> Inl FileNotFoundError
      | Some records \<Rightarrow> Inr (dict_reader records))"

definition write_csv :: "fs \<Rightarrow> string \<Rightarrow> string list \<Rightarrow> row list \<Rightarrow> fs" where
  \<comment> \<open>\<open>_write_csv\<close>: the header record, then one record per row, written to the
      temporary file \<open>path + ".tmp"\<close>, which then replaces \<open>path\<close>\<close>
  "write_csv f path header rows =
     (let tmp = path @ ''.tmp'';
          records = header # map (dict_to_list header) rows;
          written = (csv_files f)(tmp \<mapsto> records)
      in f\<lparr>csv_files := written(path := written tmp, tmp := None)\<rparr>)"

definition copy_as_backup :: "fs \<Rightarrow> string \<Rightarrow> string \<Rightarrow> string \<Rightarrow> py_error + fs" where
  \<comment> \<open>\<open>_copy_as_backup\<close>: \<open>name\<close> is \<open>src.name\<close>\<close>
  "copy_as_backup f src name backup_dir =
     (case csv_files f src of
        None \<Rightarrow> Inl FileNotFoundError
      | Some records \<Rightarrow>
          Inr (f\<lparr>csv_files := (csv_files f)(backup_dir @ ''/'' @ name \<mapsto> records)\<rparr>))"

definition archive_rows ::
  "fs \<Rightarrow> string \<Rightarrow> string \<Rightarrow> string list \<Rightarrow> row list \<Rightarrow> fs \<times> string option" where
  \<comment> \<open>\<open>_archive_rows\<close>\<close>
  "archive_rows f archive_dir file_name header rows =
     (if rows = [] then (f, None)
      else let out = archive_dir @ ''/'' @ file_name
           in (write_csv f out header rows, Some out))"

subsection \<open>The command line\<close>

definition ACTIVE_RUN_STATUSES_DEFAULT :: "string set" where
  "ACTIVE_RUN_STATUSES_DEFAULT =
     {''initialized'', ''active'', ''in_progress'', ''blocked'', ''blocked_missing_stages'',
      ''awaiting_input'', ''ready''}"

definition ACTIVE_REQUEST_STATUSES_DEFAULT :: "string set" where
  "ACTIVE_REQUEST_STATUSES_DEFAULT =
     {''open'', ''in_progress'', ''blocked'', ''ready'', ''todo'', ''pending''}"

fun split_on :: "char \<Rightarrow> string \<Rightarrow> string list" where
  \<comment> \<open>\<open>s.split(c)\<close>\<close>
  "split_on c [] = [[]]"
| "split_on c (x # xs) =
     (if x = c then [] # split_on c xs
      else (case split_on c xs of [] \<Rightarrow> [[x]] | w # ws \<Rightarrow> (x # w) # ws))"

definition parse_set :: "string \<Rightarrow> string set \<Rightarrow> string set" where
  \<comment> \<open>\<open>_parse_set\<close>\<close>
  "parse_set v dflt =
     (if strip v = [] then dflt
      else set (map (\<lambda>w. normalize (Some w)) (filter (\<lambda>w. strip w \<noteq> []) (split_on CHR '','' v))))"

record args =
  dry_run :: bool
  keep_run_history :: bool
  active_run_statuses :: string
  active_request_statuses :: string
  root :: string

text \<open>
  The two readings of the clock in \<open>main\<close>, already formatted: the \<open>isoformat()\<close> of the
  first and the \<open>strftime("%Y%m%dT%H%M%SZ")\<close> of the second.
\<close>

record clock =
  now_iso :: string
  now_stamp :: string

datatype printed = Stdout json | Stderr string

definition str_digit :: "nat \<Rightarrow> char" where
  "str_digit d = char_of (48 + d)"

function str_nat :: "nat \<Rightarrow> string" where
  \<comment> \<open>\<open>str(n)\<close> for a count\<close>
  "str_nat n = (if n < 10 then [str_digit n] else str_nat (n div 10) @ [str_digit (n mod 10)])"
  by pat_completeness auto
termination
  by (relation "measure id") auto

fun join :: "string \<Rightarrow> string list \<Rightarrow> string" where
  \<comment> \<open>\<open>sep.join(xs)\<close>\<close>
  "join sep [] = []"
| "join sep [x] = x"
| "join sep (x # y # ys) = x @ sep @ join sep (y # ys)"

definition file_names :: "string list" where
  \<comment> \<open>the keys of \<open>required_files\<close>, in order\<close>
  "file_names = [''run_registry.csv'', ''change_request_queue.csv'', ''handoff_log.csv'',
                 ''decision_log.csv'']"

definition index_header :: "string list" where
  "index_header = [''timestamp_utc'', ''archive_dir'', ''active_run_ids'', ''run_rows_archived'',
                   ''request_rows_archived'', ''handoff_rows_archived'',
                   ''decision_rows_archived'']"

record splits =
  run_split :: SplitResult
  req_split :: SplitResult
  handoff_split :: SplitResult
  decision_split :: SplitResult

definition split_map ::
  "row list \<Rightarrow> row list \<Rightarrow> row list \<Rightarrow> row list \<Rightarrow> string set \<Rightarrow> string set \<Rightarrow> bool
     \<Rightarrow> py_error + (splits \<times> string set)" where
  \<comment> \<open>the four splits of \<open>main\<close>, in the order of \<open>split_map\<close>, and \<open>active_runs\<close>\<close>
  "split_map run_rows req_rows handoff_rows decision_rows run_statuses request_statuses history =
     (case split_run_registry run_rows run_statuses history of
        Inl e \<Rightarrow> Inl e
      | Inr (rs, active_runs) \<Rightarrow>
          Inr (\<lparr>run_split = rs,
                 req_split = split_change_requests req_rows active_runs request_statuses,
                 handoff_split = split_by_active_runs handoff_rows active_runs,
                 decision_split = split_by_active_runs decision_rows active_runs\<rparr>,
               active_runs))"

definition counts_json :: "row list \<Rightarrow> SplitResult \<Rightarrow> json" where
  "counts_json rows sp =
     JObj [(''before'', JNum (length rows)), (''keep'', JNum (length (keep sp))),
           (''archive'', JNum (length (archive sp)))]"

definition bind :: "py_error + 'a \<Rightarrow> ('a \<Rightarrow> py_error + 'b) \<Rightarrow> py_error + 'b" where
  \<comment> \<open>an exception ends the run\<close>
  "bind m k = (case m of Inl e \<Rightarrow> Inl e | Inr x \<Rightarrow> k x)"

fun backup_all :: "fs \<Rightarrow> string \<Rightarrow> (string \<times> string) list \<Rightarrow> py_error + fs" where
  \<comment> \<open>the loop of \<open>main\<close> over \<open>_copy_as_backup\<close>\<close>
  "backup_all f backup_dir [] = Inr f"
| "backup_all f backup_dir ((name, path) # files) =
     bind (copy_as_backup f path name backup_dir) (\<lambda>f1. backup_all f1 backup_dir files)"

fun write_all ::
  "fs \<Rightarrow> string \<Rightarrow> (string \<times> string \<times> string list \<times> SplitResult) list \<Rightarrow> string list
     \<Rightarrow> fs \<times> string list" where
  \<comment> \<open>the loop of \<open>main\<close> that rewrites each live file and archives the other rows; the
      last argument is \<open>archive_manifest["archived_files"]\<close>\<close>
  "write_all f archive_csv_dir [] archived_files = (f, archived_files)"
| "write_all f archive_csv_dir ((name, path, header, sp) # files) archived_files =
     (let f1 = write_csv f path header (keep sp);
          (f2, archived) = archive_rows f1 archive_csv_dir name header (archive sp)
      in write_all f2 archive_csv_dir files
           (case archived of None \<Rightarrow> archived_files | Some out \<Rightarrow> archived_files @ [out]))"

definition main :: "args \<Rightarrow> clock \<Rightarrow> fs \<Rightarrow> py_error + (int \<times> fs \<times> printed list)" where
  \<comment> \<open>\<open>main\<close>: the exit code, the files afterwards and what was printed; \<open>root args\<close> is
      the resolved root path\<close>
  "main a clk f =
     (let data_dir = root a @ ''/data/team_ops'';
          required_files = map (\<lambda>name. (name, data_dir @ ''/'' @ name)) file_names
      in case find (\<lambda>(name, path). \<not> exists f path) required_files of
           Some (name, path) \<Rightarrow>
             Inr (2, f, [Stderr (''error: required file not found: '' @ path)])
         | None \<Rightarrow>
             let run_statuses = parse_set (active_run_statuses a) ACTIVE_RUN_STATUSES_DEFAULT;
                 request_statuses =
                   parse_set (active_request_statuses a) ACTIVE_REQUEST_STATUSES_DEFAULT
             in
             bind (read_csv f (data_dir @ ''/run_registry.csv'')) (\<lambda>(h_run, r_run).
             bind (read_csv f (data_dir @ ''/change_request_queue.csv'')) (\<lambda>(h_req, r_req).
             bind (read_csv f (data_dir @ ''/handoff_log.csv'')) (\<lambda>(h_hand, r_hand).
             bind (read_csv f (data_dir @ ''/decision_log.csv'')) (\<lambda>(h_dec, r_dec).
             bind (split_map r_run r_req r_hand r_dec run_statuses request_statuses
                     (keep_run_history a)) (\<lambda>(sp, active_runs).
               let active_run_ids = sorted_list_of_set active_runs;
                   summary =
                     [(''timestamp_utc'', JStr (now_iso clk)),
                      (''dry_run'', JBool (dry_run a)),
                      (''active_run_ids'', JList (map JStr active_run_ids)),
                      (''active_run_statuses'', JList (map JStr (sorted_list_of_set run_statuses))),
                      (''active_request_statuses'',
                         JList (map JStr (sorted_list_of_set request_statuses))),
                      (''counts'', JObj
                         [(''run_registry.csv'', counts_json r_run (run_split sp)),
                          (''change_request_queue.csv'', counts_json r_req (req_split sp)),
                          (''handoff_log.csv'', counts_json r_hand (handoff_split sp)),
                          (''decision_log.csv'', counts_json r_dec (decision_split sp))])]
               in if dry_run a then Inr (0, f, [Stdout (JObj summary)])
                  else
                    let archive_dir = data_dir @ ''/archive/'' @ now_stamp clk;
                        backup_dir = archive_dir @ ''/backup'';
                        archive_csv_dir = archive_dir @ ''/archived_rows''
                    in
                    bind (backup_all f backup_dir required_files) (\<lambda>f1.
                      let (f2, archived_files) =
                            write_all f1 archive_csv_dir
                              [(''run_registry.csv'', data_dir @ ''/run_registry.csv'',
                                  h_run, run_split sp),
                               (''change_request_queue.csv'',
                                  data_dir @ ''/change_request_queue.csv'', h_req, req_split sp),
                               (''handoff_log.csv'', data_dir @ ''/handoff_log.csv'',
                                  h_hand, handoff_split sp),
                               (''decision_log.csv'', data_dir @ ''/decision_log.csv'',
                                  h_dec, decision_split sp)] [];
                          archive_manifest =
                            summary @ [(''archive_dir'', JStr archive_dir),
                                       (''archived_files'', JList (map JStr archived_files))];
                          f3 = f2\<lparr>json_files :=
                                 (json_files f2)(archive_dir @ ''/manifest.json''
                                                   \<mapsto> JObj archive_manifest)\<rparr>;
                          index_path = data_dir @ ''/archive/archive_index.csv''
                      in
                      bind (if exists f3 index_path
                            then bind (read_csv f3 index_path)
                                   (\<lambda>(ih, ir). Inr (if ih = index_header then ir else []))
                            else Inr []) (\<lambda>index_rows.
                        let new_row =
                              \<lparr>cells =
                                 [(''timestamp_utc'', Some (now_iso clk)),
                                  (''archive_dir'', Some archive_dir),
                                  (''active_run_ids'', Some (join '';'' active_run_ids)),
                                  (''run_rows_archived'',
                                     Some (str_nat (length (archive (run_split sp))))),
                                  (''request_rows_archived'',
                                     Some (str_nat (length (archive (req_split sp))))),
                                  (''handoff_rows_archived'',
                                     Some (str_nat (length (archive (handoff_split sp))))),
                                  (''decision_rows_archived'',
                                     Some (str_nat (length (archive (decision_split sp)))))],
                               rest = []\<rparr>;
                            f4 = write_csv f3 index_path index_header (index_rows @ [new_row])
                        in Inr (0, f4, [Stdout (JObj archive_manifest)])))))))))"

section \<open>scripts/export\_oracle\_record.py\<close>

text \<open>
  \<open>normalize_rows\<close> copies every row and stores its 1-based position under
  \<open>_row_number\<close> (\<open>enumerate(rows, start=1)\<close>); an event is the row with that number.
  The columns that \<open>normalize_rows\<close> parses as JSON lists (\<open>JSON_LIST_FIELDS\<close>) are not
  read by \<open>validate_supersedes\<close> or \<open>materialize_latest\<close> at any call site, so the
  cells are kept as read.
\<close>

type_synonym event = "nat \<times> row"

definition with_row_number :: "row list \<Rightarrow> event list" where
  "with_row_number rows = enumerate 1 rows"

record issue =
  severity :: string
  code :: string
  file' :: string
  field :: string
  row_number :: nat
  message :: string

definition quote :: "string \<Rightarrow> string" where
  \<comment> \<open>\<open>'{s}'\<close> inside an f-string\<close>
  "quote s = [CHR 0x27] @ s @ [CHR 0x27]"

definition supersedes_self_issue :: "string \<Rightarrow> string \<Rightarrow> string \<Rightarrow> nat \<Rightarrow> string \<Rightarrow> issue" where
  "supersedes_self_issue file_key current_field supersedes_field rn supers =
     \<lparr>severity = ''error'', code = ''SUPERSEDES_SELF'', file' = file_key,
      field = supersedes_field, row_number = rn,
      message = supersedes_field @ '' cannot equal '' @ current_field @ '' ('' @ quote supers @ '')''\<rparr>"

definition supersedes_not_prior_issue ::
  "string \<Rightarrow> string \<Rightarrow> string \<Rightarrow> nat \<Rightarrow> string \<Rightarrow> issue" where
  "supersedes_not_prior_issue file_key current_field supersedes_field rn supers =
     \<lparr>severity = ''error'', code = ''SUPERSEDES_TARGET_NOT_PRIOR'', file' = file_key,
      field = supersedes_field, row_number = rn,
      message = supersedes_field @ ''='' @ quote supers @ '' does not reference a prior ''
                @ current_field\<rparr>"

fun validate_supersedes_loop ::
  "string \<Rightarrow> event list \<Rightarrow> string \<Rightarrow> string \<Rightarrow> string set \<Rightarrow> issue list \<Rightarrow> issue list" where
  "validate_supersedes_loop file_key [] current_field supersedes_field seen_prior issues = issues"
| "validate_supersedes_loop file_key (row # rows) current_field supersedes_field seen_prior issues =
     (let current = stripped (snd row) current_field;
          supers = stripped (snd row) supersedes_field;
          rn = fst row;
          issues1 =
            (if supers \<noteq> [] then
               (if supers = current
                then issues @ [supersedes_self_issue file_key current_field supersedes_field rn supers]
                else if supers \<notin> seen_prior
                then issues @ [supersedes_not_prior_issue file_key current_field supersedes_field rn supers]
                else issues)
             else issues);
          seen1 = (if current \<noteq> [] then insert current seen_prior else seen_prior)
      in validate_supersedes_loop file_key rows current_field supersedes_field seen1 issues1)"

definition validate_supersedes ::
  "string \<Rightarrow> event list \<Rightarrow> string \<Rightarrow> string \<Rightarrow> issue list \<Rightarrow> issue list" where
  \<comment> \<open>the list \<open>issues\<close> is extended in place; the model returns the extended list\<close>
  "validate_supersedes file_key rows current_field supersedes_field issues =
     validate_supersedes_loop file_key rows current_field supersedes_field {} issues"



section \<open>scripts/team\_ops\_migrate\_ids\_append\_only.py\<close>

definition is_digit :: "char \<Rightarrow> bool" where
  \<comment> \<open>the character class \<open>[0-9]\<close>\<close>
  "is_digit c = (48 \<le> (of_char c :: nat) \<and> (of_char c :: nat) \<le> 57)"

definition teams :: "string list" where
  "teams = [''BLUE'', ''RED'', ''GREEN'', ''BLACK'', ''WHITE'', ''GREY'']"

definition LEGACY_RE :: "string \<Rightarrow> (string \<times> string) option" where
  \<comment> \<open>\<open>LEGACY_RE.match\<close>: the groups (digits, team) of
      \<open>^CR-([0-9]{4})-(BLUE|RED|GREEN|BLACK|WHITE|GREY)$\<close>. The pattern's \<open>$\<close> also
      accepts one final newline; the only caller passes a stripped string, which has
      none.\<close>
  "LEGACY_RE s =
     (let digits = take 4 (drop 3 s); team = drop 8 s in
      if take 3 s = ''CR-'' \<and> length digits = 4 \<and> list_all is_digit digits
         \<and> take 1 (drop 7 s) = ''-'' \<and> team \<in> set teams
      then Some (digits, team) else None)"

definition normalize_request_id :: "string \<Rightarrow> string" where
  "normalize_request_id request_id =
     (case LEGACY_RE (strip request_id) of
        None \<Rightarrow> request_id
      | Some (digits, team) \<Rightarrow> ''CR-'' @ team @ ''-'' @ digits)"

definition set_item :: "row \<Rightarrow> string \<Rightarrow> string \<Rightarrow> row" where
  \<comment> \<open>\<open>row[k] = v\<close> on a copy of the row\<close>
  "set_item r k v = r\<lparr>cells := AList.update k (Some v) (cells r)\<rparr>"

definition by_id_step :: "row \<Rightarrow> (string \<times> row list) list \<Rightarrow> (string \<times> row list) list" where
  \<comment> \<open>\<open>by_id.setdefault(rid, []).append(row)\<close>\<close>
  "by_id_step r by_id =
     (let rid = stripped r ''request_id'' in
      if rid \<noteq> [] then
        AList.update rid (case map_of by_id rid of None \<Rightarrow> [r] | Some g \<Rightarrow> g @ [r]) by_id
      else by_id)"

definition by_id_of :: "row list \<Rightarrow> (string \<times> row list) list" where
  "by_id_of rows = fold by_id_step rows []"



text \<open>
  \<open>sorted(by_id.items())\<close> orders the items by key: the keys of a dict are distinct, so
  the comparison of two items is decided by their keys.
\<close>

definition sorted_items :: "(string \<times> row list) list \<Rightarrow> (string \<times> row list) list" where
  "sorted_items by_id = sort_key fst by_id"

definition canonical_statement :: string where
  "canonical_statement =
     ''Append-only migration row: canonicalized legacy request_id format to CR-<TEAM>-NNNN.''"

definition backfill_statement :: string where
  "backfill_statement =
     ''Append-only migration row: backfilled supersedes_request_id for duplicate request_id lineage.''"

fun canonicalize_rows :: "(string \<times> row list) list \<Rightarrow> py_error + row list" where
  \<comment> \<open>loop 1 of \<open>main\<close>; \<open>group[-1]\<close> raises \<open>IndexError\<close> on an empty group\<close>
  "canonicalize_rows [] = Inr []"
| "canonicalize_rows ((rid, grp) # items) =
     (let canonical = normalize_request_id rid in
      if canonical = rid then canonicalize_rows items
      else if grp = [] then Inl IndexError
      else
        let latest = last grp;
            new_row = set_item (set_item (set_item latest ''request_id'' canonical)
                        ''statement'' canonical_statement) ''supersedes_request_id'' rid
        in (case canonicalize_rows items of
              Inl e \<Rightarrow> Inl e
            | Inr others \<Rightarrow> Inr (new_row # others)))"

fun backfill_rows :: "(string \<times> row list) list \<Rightarrow> py_error + row list" where
  \<comment> \<open>loop 2 of \<open>main\<close>\<close>
  "backfill_rows [] = Inr []"
| "backfill_rows ((rid, grp) # items) =
     (if length grp \<le> 1 then backfill_rows items
      else
        let latest = last grp;
            sup = stripped latest ''supersedes_request_id''
        in if sup = rid then backfill_rows items
           else
             let new_row = set_item (set_item latest ''statement'' backfill_statement)
                             ''supersedes_request_id'' rid
             in (case backfill_rows items of
                   Inl e \<Rightarrow> Inl e
                 | Inr others \<Rightarrow> Inr (new_row # others)))"

definition append_rows :: "row list \<Rightarrow> py_error + row list" where
  \<comment> \<open>the list \<open>append_rows\<close> that \<open>main\<close> writes to the end of the queue\<close>
  "append_rows rows =
     (if rows = [] then Inr []
      else
        let items = sorted_items (by_id_of rows) in
        (case canonicalize_rows items of
           Inl e \<Rightarrow> Inl e
         | Inr first \<Rightarrow>
             (case backfill_rows items of
                Inl e \<Rightarrow> Inl e
              | Inr second \<Rightarrow> Inr (first @ second))))"

section \<open>scripts/rapid\_review/tickets.py\<close>












section \<open>Notions used in the statements and proofs\<close>

definition keeps_request :: "string set \<Rightarrow> string set \<Rightarrow> string set \<Rightarrow> row \<Rightarrow> bool" where
  \<comment> \<open>the test of \<open>_split_change_requests\<close> on one row, given the set of superseded IDs\<close>
  "keeps_request A S sp r =
     (normalize (get r ''status'') \<in> S
      \<and> stripped r ''run_id'' \<noteq> [] \<and> stripped r ''run_id'' \<in> A
      \<and> \<not> (stripped r ''request_id'' \<noteq> [] \<and> stripped r ''request_id'' \<in> sp))"

definition pick :: "obj option \<Rightarrow> obj \<Rightarrow> obj option" where
  \<comment> \<open>one step of \<open>_latest_run_rows\<close> for the rows of one run: the stored row \<open>prev\<close> and the next row\<close>
  "pick prev r = (case prev of None \<Rightarrow> Some r
     | Some p \<Rightarrow> if stripped (snd r) ''created_utc'' \<ge> or_empty (get (snd p) ''created_utc'') then Some r else Some p)"

definition run_key :: "obj \<Rightarrow> string" where
  \<comment> \<open>the trimmed \<open>run_id\<close> of a row object\<close>
  "run_key r = stripped (snd r) ''run_id''"

definition active_of :: "(string \<times> obj) list \<Rightarrow> string set \<Rightarrow> string set" where
  \<comment> \<open>the set \<open>active_runs\<close> of \<open>_split_run_registry\<close>\<close>
  "active_of latest S = set (map fst
            (filter (\<lambda>(run_id, r). normalize (get (snd r) ''status'') \<in> S) latest))"

definition keep_latest :: "obj list \<Rightarrow> string set \<Rightarrow> obj list" where
  \<comment> \<open>the list \<open>keep\<close> of \<open>_split_run_registry\<close> without \<open>keep_run_history\<close>\<close>
  "keep_latest objs S = map (\<lambda>k. the (map_of (latest_run_rows objs) k))
      (sorted_list_of_set (active_of (latest_run_rows objs) S))"

definition row_issues :: "string \<Rightarrow> string \<Rightarrow> string \<Rightarrow> string set \<Rightarrow> event \<Rightarrow> issue list" where
  \<comment> \<open>the issues that one iteration of \<open>validate_supersedes\<close> appends, given \<open>seen_prior\<close>\<close>
  "row_issues file_key current_field supersedes_field seen_prior row =
     (let current = stripped (snd row) current_field;
          supers = stripped (snd row) supersedes_field
      in if supers \<noteq> [] then
           (if supers = current
            then [supersedes_self_issue file_key current_field supersedes_field (fst row) supers]
            else if supers \<notin> seen_prior
            then [supersedes_not_prior_issue file_key current_field supersedes_field (fst row) supers]
            else [])
         else [])"

definition ids_of :: "string \<Rightarrow> row list \<Rightarrow> string set" where
  \<comment> \<open>the non-empty trimmed IDs of the given rows\<close>
  "ids_of current_field rows = set (filter (\<lambda>v. v \<noteq> []) (map (\<lambda>r. stripped r current_field) rows))"

definition pickc :: "row option \<Rightarrow> row \<Rightarrow> row option" where
  \<comment> \<open>\<open>pick\<close> on rows without their identity\<close>
  "pickc prev r = (case prev of None \<Rightarrow> Some r
     | Some p \<Rightarrow> if stripped r ''created_utc'' \<ge> or_empty (get p ''created_utc'') then Some r else Some p)"

definition latest_row :: "row list \<Rightarrow> string \<Rightarrow> row option" where
  \<comment> \<open>the row that \<open>_latest_run_rows\<close> stores for a run, as a function of the rows alone\<close>
  "latest_row rows k =
     (if k = [] then None
      else fold (\<lambda>r p. pickc p r) (filter (\<lambda>r. stripped r ''run_id'' = k) rows) None)"

definition active_ids :: "row list \<Rightarrow> string set \<Rightarrow> string set" where
  \<comment> \<open>\<open>active_runs\<close> as a function of the rows alone\<close>
  "active_ids rows S =
     {k. case latest_row rows k of None \<Rightarrow> False | Some r \<Rightarrow> normalize (get r ''status'') \<in> S}"

definition latest_rows_of :: "row list \<Rightarrow> string set \<Rightarrow> row list" where
  \<comment> \<open>the latest row of every active run, in the order of \<open>sorted(active_runs)\<close>\<close>
  "latest_rows_of rows S = map (\<lambda>k. the (latest_row rows k)) (sorted_list_of_set (active_ids rows S))"





definition build :: "(string \<times> string) list \<Rightarrow> (string \<times> cell) list \<Rightarrow> (string \<times> cell) list" where
  \<comment> \<open>\<open>dict(zip(fieldnames, record))\<close>, continued from the entries \<open>acc\<close>\<close>
  "build kvs acc = fold (\<lambda>(k, v). AList.update k (Some v)) kvs acc"

section \<open>Example files\<close>

definition self_row :: row where
  "self_row = \<lparr>cells = [(''request_id'', Some ''CR-1''), (''supersedes_request_id'', Some ''CR-1'')], rest = []\<rparr>"

definition two_rows :: "row list" where
  "two_rows = [\<lparr>cells = [(''request_id'', Some ''CR-1''), (''supersedes_request_id'', Some '''')], rest = []\<rparr>,
               \<lparr>cells = [(''request_id'', Some ''CR-2''), (''supersedes_request_id'', Some ''CR-9'')], rest = []\<rparr>]"



definition ex_run_rows :: "row list" where
  "ex_run_rows =
     [\<lparr>cells = [(''run_id'', Some ''R1''), (''created_utc'', Some ''2025-01-01''), (''status'', Some ''Active '')], rest = []\<rparr>,
      \<lparr>cells = [(''run_id'', Some ''R9''), (''created_utc'', Some ''2025-01-01''), (''status'', Some ''active'')], rest = []\<rparr>,
      \<lparr>cells = [(''run_id'', Some ''R9''), (''created_utc'', Some ''2025-01-02''), (''status'', Some ''resolved'')], rest = []\<rparr>]"

definition ex_req_rows :: "row list" where
  "ex_req_rows =
     [\<lparr>cells = [(''request_id'', Some ''CR-1''), (''run_id'', Some ''R1''), (''status'', Some ''open''),
                (''supersedes_request_id'', Some '''')], rest = []\<rparr>,
      \<lparr>cells = [(''request_id'', Some ''CR-2''), (''run_id'', Some ''R1''), (''status'', Some ''open''),
                (''supersedes_request_id'', Some ''CR-1'')], rest = []\<rparr>]"

definition ex_handoff_rows :: "row list" where
  "ex_handoff_rows =
     [\<lparr>cells = [(''entry_id'', Some ''H1''), (''run_id'', Some ''R1'')], rest = []\<rparr>,
      \<lparr>cells = [(''entry_id'', Some ''H2''), (''run_id'', Some ''R9'')], rest = []\<rparr>]"

definition ex_decision_rows :: "row list" where
  "ex_decision_rows =
     [\<lparr>cells = [(''decision_id'', Some ''D1''), (''run_id'', Some ''R9'')], rest = []\<rparr>,
      \<lparr>cells = [(''decision_id'', Some ''D2''), (''run_id'', Some ''R1'')], rest = []\<rparr>]"

definition ex_self_rows :: "row list" where
  "ex_self_rows =
     [\<lparr>cells = [(''request_id'', Some ''CR-1''), (''run_id'', Some ''R1''), (''status'', Some ''open''),
                (''supersedes_request_id'', Some ''CR-1'')], rest = []\<rparr>]"



definition dup_rows :: "row list" where
  "dup_rows =
     [\<lparr>cells = [(''request_id'', Some ''CR-BLUE-0001''), (''run_id'', Some ''R1''),
                (''status'', Some ''open''), (''statement'', Some ''first''),
                (''supersedes_request_id'', Some '''')], rest = []\<rparr>,
      \<lparr>cells = [(''request_id'', Some ''CR-BLUE-0001''), (''run_id'', Some ''R1''),
                (''status'', Some ''in_progress''), (''statement'', Some ''second''),
                (''supersedes_request_id'', Some '''')], rest = []\<rparr>]"

definition dup_appended :: row where
  "dup_appended =
     \<lparr>cells = [(''request_id'', Some ''CR-BLUE-0001''), (''run_id'', Some ''R1''),
               (''status'', Some ''in_progress''), (''statement'', Some backfill_statement),
               (''supersedes_request_id'', Some ''CR-BLUE-0001'')], rest = []\<rparr>"

definition legacy_rows :: "row list" where
  "legacy_rows =
     [\<lparr>cells = [(''request_id'', Some ''CR-0001-BLUE''), (''run_id'', Some ''R1''),
                (''status'', Some ''open''), (''statement'', Some ''first''),
                (''supersedes_request_id'', Some '''')], rest = []\<rparr>]"

definition ex_args :: args where
  "ex_args = \<lparr>dry_run = False, keep_run_history = False, active_run_statuses = '''',
              active_request_statuses = '''', root = ''/repo''\<rparr>"

definition ex_clock :: clock where
  "ex_clock = \<lparr>now_iso = ''2025-01-03T00:00:00+00:00'', now_stamp = ''20250103T000000Z''\<rparr>"


definition fs_complete :: fs where
  "fs_complete =
     \<lparr>csv_files = map_of
        [(''/repo/data/team_ops/run_registry.csv'',
            [[''run_id'', ''created_utc'', ''status''],
             [''R1'', ''2025-01-01'', ''active''],
             [''R9'', ''2025-01-01'', ''active''],
             [''R9'', ''2025-01-02'', ''resolved'']]),
         (''/repo/data/team_ops/change_request_queue.csv'',
            [[''request_id'', ''run_id'', ''status'', ''supersedes_request_id''],
             [''CR-1'', ''R1'', ''open'', ''''],
             [''CR-2'', ''R1'', ''open'', ''CR-1'']]),
         (''/repo/data/team_ops/handoff_log.csv'',
            [[''entry_id'', ''run_id''], [''H1'', ''R1''], [''H2'', ''R9'']]),
         (''/repo/data/team_ops/decision_log.csv'',
            [[''decision_id'', ''run_id''], [''D1'', ''R9''], [''D2'', ''R1'']])],
      json_files = Map.empty\<rparr>"

definition handoff_path :: string where
  "handoff_path = ''/repo/data/team_ops/handoff_log.csv''"

definition fs_short_line :: fs where
  "fs_short_line =
     \<lparr>csv_files = map_of
        [(handoff_path, [[''entry_id'', ''run_id'', ''note''], [''H1'', ''R1'']])],
      json_files = Map.empty\<rparr>"

definition short_row :: row where
  "short_row = \<lparr>cells = [(''entry_id'', Some ''H1''), (''run_id'', Some ''R1''), (''note'', None)],
                 rest = []\<rparr>"

definition short_row_read_back :: row where
  "short_row_read_back =
     \<lparr>cells = [(''entry_id'', Some ''H1''), (''run_id'', Some ''R1''), (''note'', Some '''')],
      rest = []\<rparr>"

section \<open>Properties\<close>

subsection \<open>The splits of the cleanup tool\<close>

lemma split_by_active_runs_loop_eq:
  "split_by_active_runs_loop rows A kp ar =
     \<lparr>keep = kp @ filter (\<lambda>r. stripped r ''run_id'' \<noteq> [] \<and> stripped r ''run_id'' \<in> A) rows,
      archive = ar @ filter (\<lambda>r. \<not> (stripped r ''run_id'' \<noteq> [] \<and> stripped r ''run_id'' \<in> A)) rows\<rparr>"
  by (induction rows arbitrary: kp ar) (simp_all add: Let_def)

lemma split_change_requests_loop_eq:
  "split_change_requests_loop rows A S sp kp ar =
     \<lparr>keep = kp @ filter (keeps_request A S sp) rows,
      archive = ar @ filter (\<lambda>r. \<not> keeps_request A S sp r) rows\<rparr>"
  by (induction rows arbitrary: kp ar) (simp_all add: Let_def keeps_request_def)

lemma latest_run_step_map_of:
  "map_of (latest_run_step r latest) k =
     (if run_key r = k \<and> k \<noteq> [] then pick (map_of latest k) r else map_of latest k)"
  by (auto simp: latest_run_step_def Let_def pick_def run_key_def update_conv' split: option.splits)

lemma fold_latest_map_of:
  "map_of (fold latest_run_step rows acc) k =
     (if k = [] then map_of acc k
      else fold (\<lambda>r p. pick p r) (filter (\<lambda>r. run_key r = k) rows) (map_of acc k))"
  by (induction rows arbitrary: acc) (auto simp: latest_run_step_map_of)

lemma distinct_latest_run_step: "distinct (map fst latest) \<Longrightarrow> distinct (map fst (latest_run_step r latest))"
  by (auto simp: latest_run_step_def Let_def distinct_update split: option.splits)

lemma distinct_fold_latest: "distinct (map fst acc) \<Longrightarrow> distinct (map fst (fold latest_run_step rows acc))"
  by (induction rows arbitrary: acc) (auto simp: distinct_latest_run_step)

lemma distinct_fst_objects: "distinct (map fst (objects rows))"
  by (simp add: objects_def)

lemma map_snd_objects: "map snd (objects rows) = rows"
  by (simp add: objects_def)

lemma distinct_objects: "distinct (objects rows)"
  using distinct_fst_objects distinct_map by blast

lemma fold_pick_cases:
  "fold (\<lambda>r p. pick p r) xs init = Some x \<Longrightarrow> x \<in> set xs \<or> init = Some x"
  by (induction xs arbitrary: init) (auto simp: pick_def split: option.splits if_splits)

lemma fold_pick_Some:
  "xs \<noteq> [] \<or> init \<noteq> None \<Longrightarrow> fold (\<lambda>r p. pick p r) xs init \<noteq> None"
  by (induction xs arbitrary: init) (auto simp: pick_def split: option.splits if_splits)

lemma latest_run_rows_Some:
  assumes "map_of (latest_run_rows objs) k = Some x"
  shows "x \<in> set objs \<and> run_key x = k \<and> k \<noteq> []"
proof -
  from assms have k: "k \<noteq> []"
    by (auto simp: latest_run_rows_def fold_latest_map_of split: if_splits)
  with assms have "fold (\<lambda>r p. pick p r) (filter (\<lambda>r. run_key r = k) objs) None = Some x"
    by (simp add: latest_run_rows_def fold_latest_map_of)
  then have "x \<in> set (filter (\<lambda>r. run_key r = k) objs)"
    using fold_pick_cases by fastforce
  with k show ?thesis by simp
qed

lemma distinct_latest_run_rows: "distinct (map fst (latest_run_rows objs))"
  by (simp add: latest_run_rows_def distinct_fold_latest)

lemma active_of_iff:
  "distinct (map fst latest) \<Longrightarrow>
   k \<in> active_of latest S \<longleftrightarrow> (\<exists>x. map_of latest k = Some x \<and> normalize (get (snd x) ''status'') \<in> S)"
  by (force simp: active_of_def)

lemma those_map_Some:
  "(\<And>x. x \<in> set xs \<Longrightarrow> f x \<noteq> None) \<Longrightarrow> those (map f xs) = Some (map (\<lambda>x. the (f x)) xs)"
  by (induction xs) (auto split: option.splits)

lemma same_id_same_obj:
  assumes "distinct (map fst objs)" "r \<in> set objs" "q \<in> set objs" "fst q = fst r"
  shows "q = r"
  using assms by (auto simp: distinct_map dest: inj_onD)

lemma partition_by_ids:
  assumes d: "distinct (map fst objs)" and dk: "distinct ks" and sub: "set ks \<subseteq> set objs"
  shows "mset ks + mset (filter (\<lambda>r. fst r \<notin> set (map fst ks)) objs) = mset objs"
proof -
  have eq: "(fst r \<in> fst ` set ks) = (r \<in> set ks)" if r: "r \<in> set objs" for r
  proof
    assume "fst r \<in> fst ` set ks"
    then obtain q where q: "q \<in> set ks" "fst q = fst r" by auto
    with sub have "q \<in> set objs" by auto
    with d r q have "q = r" using same_id_same_obj by blast
    with q show "r \<in> set ks" by simp
  next
    assume "r \<in> set ks" then show "fst r \<in> fst ` set ks" by simp
  qed
  have f: "filter (\<lambda>r. fst r \<notin> set (map fst ks)) objs = filter (\<lambda>r. r \<notin> set ks) objs"
    using eq by (intro filter_cong) simp_all
  have dobjs: "distinct objs" using d distinct_map by blast
  have s: "set (filter (\<lambda>r. r \<in> set ks) objs) = set ks" using sub by auto
  have a: "mset (filter (\<lambda>r. r \<in> set ks) objs) = mset ks"
    using set_eq_iff_mset_eq_distinct[of "filter (\<lambda>r. r \<in> set ks) objs" ks] dobjs dk s by simp
  have b: "mset (filter (\<lambda>r. r \<in> set ks) objs) + mset (filter (\<lambda>r. r \<notin> set ks) objs) = mset objs"
    unfolding mset_filter by (rule multiset_partition[symmetric])
  show ?thesis unfolding f a[symmetric] by (rule b)
qed

lemma finite_active_of: "finite (active_of latest S)"
  by (simp add: active_of_def)

lemma active_of_latest_Some:
  assumes "k \<in> active_of (latest_run_rows objs) S"
  shows "\<exists>x. map_of (latest_run_rows objs) k = Some x \<and> x \<in> set objs \<and> run_key x = k
      \<and> normalize (get (snd x) ''status'') \<in> S"
proof -
  from assms obtain x where x: "map_of (latest_run_rows objs) k = Some x"
      "normalize (get (snd x) ''status'') \<in> S"
    using active_of_iff[OF distinct_latest_run_rows] by blast
  with latest_run_rows_Some[OF x(1)] show ?thesis by blast
qed

lemma map_snd_filter_objects:
  "map snd (filter (\<lambda>r. P (snd r)) (objects rows)) = filter P rows"
proof -
  have "filter P (map snd (objects rows)) = map snd (filter (P \<circ> snd) (objects rows))"
    by (rule filter_map)
  then show ?thesis by (simp add: map_snd_objects o_def)
qed

lemma split_run_registry_history:
  "split_run_registry rows S True =
     Inr (\<lparr>keep = filter (\<lambda>r. stripped r ''run_id'' \<in> active_of (latest_run_rows (objects rows)) S) rows,
           archive = filter (\<lambda>r. stripped r ''run_id'' \<notin> active_of (latest_run_rows (objects rows)) S) rows\<rparr>,
          active_of (latest_run_rows (objects rows)) S)"
proof -
  let ?objs = "objects rows"
  let ?A = "active_of (latest_run_rows ?objs) S"
  let ?K = "filter (\<lambda>r. stripped (snd r) ''run_id'' \<in> ?A) ?objs"
  have ids: "(fst r \<in> set (map fst ?K)) = (stripped (snd r) ''run_id'' \<in> ?A)" if "r \<in> set ?objs" for r
  proof
    assume "fst r \<in> set (map fst ?K)"
    then obtain q where q: "q \<in> set ?K" "fst q = fst r" by auto
    then have "q \<in> set ?objs" by simp
    with that q have "q = r" using same_id_same_obj[OF distinct_fst_objects] by blast
    with q show "stripped (snd r) ''run_id'' \<in> ?A" by simp
  next
    assume "stripped (snd r) ''run_id'' \<in> ?A"
    with that have "r \<in> set ?K" by simp
    then show "fst r \<in> set (map fst ?K)" by (simp del: set_filter)
  qed
  have ar: "filter (\<lambda>r. fst r \<notin> set (map fst ?K)) ?objs = filter (\<lambda>r. stripped (snd r) ''run_id'' \<notin> ?A) ?objs"
    using ids by (intro filter_cong) simp_all
  have k: "map snd ?K = filter (\<lambda>r. stripped r ''run_id'' \<in> ?A) rows"
    by (rule map_snd_filter_objects)
  have a: "map snd (filter (\<lambda>r. stripped (snd r) ''run_id'' \<notin> ?A) ?objs) = filter (\<lambda>r. stripped r ''run_id'' \<notin> ?A) rows"
    by (rule map_snd_filter_objects)
  show ?thesis
    unfolding split_run_registry_def Let_def active_of_def[symmetric]
    by (simp only: if_True option.case ar k a)
qed

lemma split_run_registry_latest:
  "split_run_registry rows S False =
     Inr (\<lparr>keep = map snd (keep_latest (objects rows) S),
           archive = map snd (filter (\<lambda>r. fst r \<notin> set (map fst (keep_latest (objects rows) S))) (objects rows))\<rparr>,
          active_of (latest_run_rows (objects rows)) S)"
proof -
  let ?objs = "objects rows"
  let ?A = "active_of (latest_run_rows ?objs) S"
  have "those (map (map_of (latest_run_rows ?objs)) (sorted_list_of_set ?A)) = Some (keep_latest ?objs S)"
    unfolding keep_latest_def
    by (rule those_map_Some) (use active_of_latest_Some finite_active_of in fastforce)
  then show ?thesis
    unfolding split_run_registry_def Let_def active_of_def[symmetric]
    by (simp only: if_False option.case)
qed

lemma keep_latest_key:
  assumes "k \<in> active_of (latest_run_rows objs) S"
  shows "the (map_of (latest_run_rows objs) k) \<in> set objs"
    and "run_key (the (map_of (latest_run_rows objs) k)) = k"
    and "normalize (get (snd (the (map_of (latest_run_rows objs) k))) ''status'') \<in> S"
  using active_of_latest_Some[OF assms] by auto

lemma set_sorted_active: "set (sorted_list_of_set (active_of latest S)) = active_of latest S"
  by (simp add: finite_active_of)

lemma distinct_keep_latest: "distinct (keep_latest objs S)"
proof -
  have "inj_on (\<lambda>k. the (map_of (latest_run_rows objs) k)) (active_of (latest_run_rows objs) S)"
    by (rule inj_onI) (metis keep_latest_key(2))
  then show ?thesis
    unfolding keep_latest_def by (simp add: distinct_map set_sorted_active)
qed

lemma keep_latest_subset: "set (keep_latest objs S) \<subseteq> set objs"
  unfolding keep_latest_def using keep_latest_key(1) by (auto simp: set_sorted_active)

lemma map_run_key_keep_latest:
  "map run_key (keep_latest objs S) = sorted_list_of_set (active_of (latest_run_rows objs) S)"
  unfolding keep_latest_def map_map o_def
  by (rule map_idI) (simp add: keep_latest_key(2) set_sorted_active)

lemma ex_split_result:
  assumes "f = Inr (\<lparr>keep = k, archive = a\<rparr>, A)" and "mset k + mset a = mset rows"
  shows "\<exists>res A. f = Inr (res, A) \<and> mset (keep res) + mset (archive res) = mset rows"
proof (intro exI conjI)
  show "f = Inr (\<lparr>keep = k, archive = a\<rparr>, A)" by (rule assms(1))
  show "mset (keep \<lparr>keep = k, archive = a\<rparr>) + mset (archive \<lparr>keep = k, archive = a\<rparr>) = mset rows"
    by (simp only: SplitResult.select_convs assms(2))
qed

lemma split_run_registry_partition:
  "\<exists>res A. split_run_registry rows S h = Inr (res, A)
     \<and> mset (keep res) + mset (archive res) = mset rows"
proof (cases h)
  case True
  have "mset (filter (\<lambda>r. stripped r ''run_id'' \<in> active_of (latest_run_rows (objects rows)) S) rows)
      + mset (filter (\<lambda>r. stripped r ''run_id'' \<notin> active_of (latest_run_rows (objects rows)) S) rows)
      = mset rows"
    unfolding mset_filter by (rule multiset_partition[symmetric])
  moreover have "split_run_registry rows S h = Inr (\<lparr>keep = filter (\<lambda>r. stripped r ''run_id'' \<in> active_of (latest_run_rows (objects rows)) S) rows,
           archive = filter (\<lambda>r. stripped r ''run_id'' \<notin> active_of (latest_run_rows (objects rows)) S) rows\<rparr>,
          active_of (latest_run_rows (objects rows)) S)"
    using True by (simp only: split_run_registry_history)
  ultimately show ?thesis by (rule ex_split_result[rotated])
next
  case False
  let ?objs = "objects rows"
  let ?K = "keep_latest ?objs S"
  have "mset ?K + mset (filter (\<lambda>r. fst r \<notin> set (map fst ?K)) ?objs) = mset ?objs"
    by (rule partition_by_ids[OF distinct_fst_objects distinct_keep_latest keep_latest_subset])
  then have "image_mset snd (mset ?K + mset (filter (\<lambda>r. fst r \<notin> set (map fst ?K)) ?objs))
      = image_mset snd (mset ?objs)" by (rule arg_cong)
  then have "mset (map snd ?K) + mset (map snd (filter (\<lambda>r. fst r \<notin> set (map fst ?K)) ?objs))
      = mset (map snd ?objs)"
    by (simp only: mset_map image_mset_union)
  then have "mset (map snd ?K) + mset (map snd (filter (\<lambda>r. fst r \<notin> set (map fst ?K)) ?objs))
      = mset rows" by (simp only: map_snd_objects)
  moreover have "split_run_registry rows S h = Inr (\<lparr>keep = map snd ?K,
           archive = map snd (filter (\<lambda>r. fst r \<notin> set (map fst ?K)) ?objs)\<rparr>,
          active_of (latest_run_rows ?objs) S)"
    using False by (simp only: split_run_registry_latest)
  ultimately show ?thesis by (rule ex_split_result[rotated])
qed

subsection \<open>The supersedes-chain validator\<close>

lemma validate_loop_step:
  "validate_supersedes_loop f (row # rows) cf sf seen issues =
     validate_supersedes_loop f rows cf sf
       (if stripped (snd row) cf \<noteq> [] then insert (stripped (snd row) cf) seen else seen)
       (issues @ row_issues f cf sf seen row)"
  by (simp add: Let_def row_issues_def)

lemma validate_loop_append:
  "validate_supersedes_loop f rows cf sf seen issues =
     issues @ validate_supersedes_loop f rows cf sf seen []"
proof (induction rows arbitrary: seen issues)
  case Nil
  then show ?case by simp
next
  case (Cons row rows)
  show ?case
    unfolding validate_loop_step
    by (subst Cons.IH) (subst (2) Cons.IH, simp)
qed

lemma row_issues_number: "x \<in> set (row_issues f cf sf seen row) \<Longrightarrow> row_number x = fst row"
  by (auto simp: row_issues_def Let_def supersedes_self_issue_def supersedes_not_prior_issue_def
      split: if_splits)

lemma validate_loop_numbers:
  "x \<in> set (validate_supersedes_loop f (enumerate n rows) cf sf seen []) \<Longrightarrow> n \<le> row_number x"
proof (induction rows arbitrary: n seen)
  case Nil
  then show ?case by simp
next
  case (Cons row rows)
  from Cons.prems have "x \<in> set (row_issues f cf sf seen (n, row)) \<or>
     x \<in> set (validate_supersedes_loop f (enumerate (Suc n) rows) cf sf
       (if stripped row cf \<noteq> [] then insert (stripped row cf) seen else seen) [])"
    unfolding enumerate_simps validate_loop_step
    by (subst (asm) validate_loop_append) (auto simp del: validate_supersedes_loop.simps split: if_splits)
  then show ?case
  proof
    assume "x \<in> set (row_issues f cf sf seen (n, row))"
    then show ?thesis using row_issues_number by fastforce
  next
    assume "x \<in> set (validate_supersedes_loop f (enumerate (Suc n) rows) cf sf
       (if stripped row cf \<noteq> [] then insert (stripped row cf) seen else seen) [])"
    then have "Suc n \<le> row_number x" by (rule Cons.IH)
    then show ?thesis by simp
  qed
qed

lemma validate_loop_at:
  "i < length rows \<Longrightarrow>
   filter (\<lambda>x. row_number x = n + i) (validate_supersedes_loop f (enumerate n rows) cf sf seen [])
     = row_issues f cf sf (seen \<union> ids_of cf (take i rows)) (n + i, rows ! i)"
proof (induction rows arbitrary: n i seen)
  case Nil
  then show ?case by simp
next
  case (Cons row rows)
  let ?seen1 = "if stripped row cf \<noteq> [] then insert (stripped row cf) seen else seen"
  have unfold: "validate_supersedes_loop f (enumerate n (row # rows)) cf sf seen []
      = row_issues f cf sf seen (n, row) @ validate_supersedes_loop f (enumerate (Suc n) rows) cf sf ?seen1 []"
    unfolding enumerate_simps validate_loop_step
    by (subst validate_loop_append) simp
  show ?case
  proof (cases i)
    case 0
    have a: "filter (\<lambda>x. row_number x = n) (row_issues f cf sf seen (n, row)) = row_issues f cf sf seen (n, row)"
      using row_issues_number by (fastforce intro: filter_True)
    have b: "filter (\<lambda>x. row_number x = n) (validate_supersedes_loop f (enumerate (Suc n) rows) cf sf ?seen1 []) = []"
      using validate_loop_numbers[of _ f "Suc n" rows cf sf ?seen1] by (fastforce simp: filter_empty_conv)
    show ?thesis unfolding unfold using 0 a b by (simp add: ids_of_def del: validate_supersedes_loop.simps)
  next
    case (Suc j)
    with Cons.prems have j: "j < length rows" by simp
    have a: "filter (\<lambda>x. row_number x = n + i) (row_issues f cf sf seen (n, row)) = []"
      using row_issues_number Suc by (fastforce simp: filter_empty_conv)
    have s: "?seen1 \<union> ids_of cf (take j rows) = seen \<union> ids_of cf (take i (row # rows))"
      using Suc by (auto simp: ids_of_def)
    have "filter (\<lambda>x. row_number x = Suc n + j) (validate_supersedes_loop f (enumerate (Suc n) rows) cf sf ?seen1 [])
      = row_issues f cf sf (?seen1 \<union> ids_of cf (take j rows)) (Suc n + j, rows ! j)"
      by (rule Cons.IH[OF j])
    then show ?thesis unfolding unfold using Suc a s by (simp del: validate_supersedes_loop.simps)
  qed
qed

lemma validate_supersedes_new:
  "validate_supersedes f (with_row_number rows) cf sf issues =
     issues @ validate_supersedes_loop f (enumerate 1 rows) cf sf {} []"
  unfolding validate_supersedes_def with_row_number_def by (rule validate_loop_append)

lemma validate_supersedes_row:
  assumes "i < length rows"
  shows "filter (\<lambda>x. row_number x = Suc i) (validate_supersedes_loop f (enumerate 1 rows) cf sf {} [])
     = row_issues f cf sf (ids_of cf (take i rows)) (Suc i, rows ! i)"
  using validate_loop_at[OF assms, of 1 f cf sf "{}"] by simp

lemma filter_conj: "filter (\<lambda>x. P x \<and> Q x) xs = filter Q (filter P xs)"
  by (induction xs) auto

text \<open>
  Claim C5. For every row whose non-empty (trimmed) supersedes value equals the row's own
  (trimmed) current-field value, the issues that \<open>validate_supersedes\<close> adds contain exactly
  one \<open>SUPERSEDES_SELF\<close> issue with that row's 1-based row number.
\<close>

theorem validate_supersedes_self:
  assumes "i < length rows"
    and "stripped (rows ! i) supersedes_field \<noteq> []"
    and "stripped (rows ! i) supersedes_field = stripped (rows ! i) current_field"
  shows "\<exists>new. validate_supersedes file_key (with_row_number rows) current_field supersedes_field issues
           = issues @ new
      \<and> filter (\<lambda>x. row_number x = Suc i \<and> code x = ''SUPERSEDES_SELF'') new
          = [supersedes_self_issue file_key current_field supersedes_field (Suc i)
               (stripped (rows ! i) supersedes_field)]"
proof (intro exI conjI)
  show "validate_supersedes file_key (with_row_number rows) current_field supersedes_field issues
      = issues @ validate_supersedes_loop file_key (enumerate 1 rows) current_field supersedes_field {} []"
    by (rule validate_supersedes_new)
  have "row_issues file_key current_field supersedes_field (ids_of current_field (take i rows)) (Suc i, rows ! i)
      = [supersedes_self_issue file_key current_field supersedes_field (Suc i)
               (stripped (rows ! i) supersedes_field)]"
    using assms(2,3) by (simp add: row_issues_def)
  then show "filter (\<lambda>x. row_number x = Suc i \<and> code x = ''SUPERSEDES_SELF'')
       (validate_supersedes_loop file_key (enumerate 1 rows) current_field supersedes_field {} [])
      = [supersedes_self_issue file_key current_field supersedes_field (Suc i)
               (stripped (rows ! i) supersedes_field)]"
    unfolding filter_conj validate_supersedes_row[OF assms(1)]
    by (simp add: supersedes_self_issue_def)
qed

text \<open>
  Claim C4, as amended. For every row whose non-empty (trimmed) supersedes value differs
  from the row's own current-field value and from the current-field value of every
  strictly earlier row, the issues that \<open>validate_supersedes\<close> adds contain exactly one
  \<open>SUPERSEDES_TARGET_NOT_PRIOR\<close> issue with that row's 1-based row number; it carries the
  severity \<open>error\<close>, the file, the supersedes field and the row number.
\<close>

theorem validate_supersedes_target_not_prior:
  assumes "i < length rows"
    and "stripped (rows ! i) supersedes_field \<noteq> []"
    and "stripped (rows ! i) supersedes_field \<noteq> stripped (rows ! i) current_field"
    and "stripped (rows ! i) supersedes_field \<notin> (\<lambda>r. stripped r current_field) ` set (take i rows)"
  shows "\<exists>new. validate_supersedes file_key (with_row_number rows) current_field supersedes_field issues
           = issues @ new
      \<and> filter (\<lambda>x. row_number x = Suc i \<and> code x = ''SUPERSEDES_TARGET_NOT_PRIOR'') new
          = [\<lparr>severity = ''error'', code = ''SUPERSEDES_TARGET_NOT_PRIOR'', file' = file_key,
              field = supersedes_field, row_number = Suc i,
              message = supersedes_field @ ''='' @ quote (stripped (rows ! i) supersedes_field)
                @ '' does not reference a prior '' @ current_field\<rparr>]"
proof (intro exI conjI)
  show "validate_supersedes file_key (with_row_number rows) current_field supersedes_field issues
      = issues @ validate_supersedes_loop file_key (enumerate 1 rows) current_field supersedes_field {} []"
    by (rule validate_supersedes_new)
  have "stripped (rows ! i) supersedes_field \<notin> ids_of current_field (take i rows)"
    using assms(4) by (auto simp: ids_of_def)
  then have "row_issues file_key current_field supersedes_field (ids_of current_field (take i rows)) (Suc i, rows ! i)
      = [supersedes_not_prior_issue file_key current_field supersedes_field (Suc i)
               (stripped (rows ! i) supersedes_field)]"
    using assms(2,3) by (simp add: row_issues_def)
  then show "filter (\<lambda>x. row_number x = Suc i \<and> code x = ''SUPERSEDES_TARGET_NOT_PRIOR'')
       (validate_supersedes_loop file_key (enumerate 1 rows) current_field supersedes_field {} [])
      = [\<lparr>severity = ''error'', code = ''SUPERSEDES_TARGET_NOT_PRIOR'', file' = file_key,
              field = supersedes_field, row_number = Suc i,
              message = supersedes_field @ ''='' @ quote (stripped (rows ! i) supersedes_field)
                @ '' does not reference a prior '' @ current_field\<rparr>]"
    unfolding filter_conj validate_supersedes_row[OF assms(1)]
    by (simp add: supersedes_not_prior_issue_def)
qed

lemmas eval_defs = stripped_def strip_def is_space_def get_def or_empty_def

text \<open>
  Claim C5 at a queue whose only row supersedes itself.
\<close>

theorem validate_supersedes_self_witness:
  "\<exists>new. validate_supersedes ''q.csv'' (with_row_number [self_row]) ''request_id'' ''supersedes_request_id'' []
           = [] @ new
      \<and> filter (\<lambda>x. row_number x = Suc 0 \<and> code x = ''SUPERSEDES_SELF'') new
          = [supersedes_self_issue ''q.csv'' ''request_id'' ''supersedes_request_id'' (Suc 0) ''CR-1'']"
  using validate_supersedes_self[of 0 "[self_row]" "''supersedes_request_id''" "''request_id''" "''q.csv''" "[]"]
  by (simp add: self_row_def eval_defs)

text \<open>
  Claim C4 fails for a row that supersedes itself: the supersedes value of the only row is
  non-empty and matches no earlier ID, and no \<open>SUPERSEDES_TARGET_NOT_PRIOR\<close> issue is
  reported (the row gets \<open>SUPERSEDES_SELF\<close> instead).
\<close>

theorem not_prior_counterexample:
  "stripped self_row ''supersedes_request_id'' \<noteq> []
   \<and> stripped self_row ''supersedes_request_id'' \<notin> (\<lambda>r. stripped r ''request_id'') ` set (take 0 [self_row])
   \<and> filter (\<lambda>x. code x = ''SUPERSEDES_TARGET_NOT_PRIOR'')
        (validate_supersedes ''q.csv'' (with_row_number [self_row]) ''request_id'' ''supersedes_request_id'' []) = []"
  by (simp add: self_row_def eval_defs validate_supersedes_def with_row_number_def Let_def supersedes_self_issue_def)

text \<open>
  The amended claim C4 at a queue whose second row supersedes an ID that no row carries.
\<close>

theorem validate_supersedes_target_not_prior_witness:
  "\<exists>new. validate_supersedes ''q.csv'' (with_row_number two_rows) ''request_id'' ''supersedes_request_id'' []
           = [] @ new
      \<and> filter (\<lambda>x. row_number x = Suc 1 \<and> code x = ''SUPERSEDES_TARGET_NOT_PRIOR'') new
          = [\<lparr>severity = ''error'', code = ''SUPERSEDES_TARGET_NOT_PRIOR'', file' = ''q.csv'',
              field = ''supersedes_request_id'', row_number = Suc 1,
              message = ''supersedes_request_id='' @ quote ''CR-9''
                @ '' does not reference a prior request_id''\<rparr>]"
  using validate_supersedes_target_not_prior[of 1 two_rows "''supersedes_request_id''" "''request_id''" "''q.csv''" "[]"]
  by (simp add: two_rows_def eval_defs)

subsection \<open>Latest-state materializers\<close>









subsection \<open>Partition and latest state\<close>

lemma mset_length_sum:
  "mset k + mset a = mset (rows :: row list) \<Longrightarrow> length k + length a = length rows"
  by (metis size_mset size_union)

lemma split_by_active_runs_eq:
  "split_by_active_runs rows A =
     \<lparr>keep = filter (\<lambda>r. stripped r ''run_id'' \<noteq> [] \<and> stripped r ''run_id'' \<in> A) rows,
      archive = filter (\<lambda>r. \<not> (stripped r ''run_id'' \<noteq> [] \<and> stripped r ''run_id'' \<in> A)) rows\<rparr>"
  unfolding split_by_active_runs_def split_by_active_runs_loop_eq by simp

lemma split_change_requests_eq:
  "split_change_requests rows A S =
     \<lparr>keep = filter (keeps_request A S (superseded_ids rows)) rows,
      archive = filter (\<lambda>r. \<not> keeps_request A S (superseded_ids rows) r) rows\<rparr>"
  unfolding split_change_requests_def split_change_requests_loop_eq by simp

lemma mset_filter_partition:
  "mset (filter P xs) + mset (filter (\<lambda>x. \<not> P x) xs) = mset xs"
  unfolding mset_filter by (rule multiset_partition[symmetric])

text \<open>
  Claim C10. Every split of the archiver partitions its input rows: each input row is
  placed in exactly one of \<open>keep\<close> and \<open>archive\<close>, so the rows kept and the rows
  archived together are the rows of the file, counted with multiplicity, and the count
  before equals the count kept plus the count archived. \<open>_split_run_registry\<close> always
  returns (its lookup \<open>latest[run_id]\<close> never raises); \<open>_split_by_active_runs\<close> serves
  both the handoff log and the decision log.
\<close>

theorem split_partition:
  "(\<exists>res active_runs.
       split_run_registry run_rows run_statuses history = Inr (res, active_runs)
       \<and> mset (keep res) + mset (archive res) = mset run_rows
       \<and> length (keep res) + length (archive res) = length run_rows)
   \<and> mset (keep (split_change_requests req_rows runs request_statuses))
       + mset (archive (split_change_requests req_rows runs request_statuses)) = mset req_rows
   \<and> length (keep (split_change_requests req_rows runs request_statuses))
       + length (archive (split_change_requests req_rows runs request_statuses))
       = length req_rows
   \<and> mset (keep (split_by_active_runs log_rows runs))
       + mset (archive (split_by_active_runs log_rows runs)) = mset log_rows
   \<and> length (keep (split_by_active_runs log_rows runs))
       + length (archive (split_by_active_runs log_rows runs)) = length log_rows"
proof (intro conjI)
  obtain res A where r: "split_run_registry run_rows run_statuses history = Inr (res, A)"
      "mset (keep res) + mset (archive res) = mset run_rows"
    using split_run_registry_partition by blast
  then have "length (keep res) + length (archive res) = length run_rows"
    by (intro mset_length_sum)
  with r show "\<exists>res active_runs.
       split_run_registry run_rows run_statuses history = Inr (res, active_runs)
       \<and> mset (keep res) + mset (archive res) = mset run_rows
       \<and> length (keep res) + length (archive res) = length run_rows" by blast
  show c: "mset (keep (split_change_requests req_rows runs request_statuses))
       + mset (archive (split_change_requests req_rows runs request_statuses)) = mset req_rows"
    unfolding split_change_requests_eq SplitResult.select_convs by (rule mset_filter_partition)
  show "length (keep (split_change_requests req_rows runs request_statuses))
       + length (archive (split_change_requests req_rows runs request_statuses))
       = length req_rows"
    using c by (rule mset_length_sum)
  show l: "mset (keep (split_by_active_runs log_rows runs))
       + mset (archive (split_by_active_runs log_rows runs)) = mset log_rows"
    unfolding split_by_active_runs_eq SplitResult.select_convs by (rule mset_filter_partition)
  show "length (keep (split_by_active_runs log_rows runs))
       + length (archive (split_by_active_runs log_rows runs)) = length log_rows"
    using l by (rule mset_length_sum)
qed




subsection \<open>The active runs as a function of the rows\<close>

lemma pick_pickc: "map_option snd (pick p x) = pickc (map_option snd p) (snd x)"
  by (cases p) (simp_all add: pick_def pickc_def)

lemma fold_pick_pickc:
  "map_option snd (fold (\<lambda>r p. pick p r) xs init)
     = fold (\<lambda>r p. pickc p r) (map snd xs) (map_option snd init)"
  by (induction xs arbitrary: init) (simp_all add: pick_pickc)

lemma map_snd_filter_run_key:
  "map snd (filter (\<lambda>r. run_key r = k) (objects rows)) = filter (\<lambda>r. stripped r ''run_id'' = k) rows"
  unfolding run_key_def by (rule map_snd_filter_objects)

lemma latest_run_rows_content:
  "map_option snd (map_of (latest_run_rows (objects rows)) k) = latest_row rows k"
  unfolding latest_run_rows_def fold_latest_map_of latest_row_def
  by (simp add: fold_pick_pickc map_snd_filter_run_key)

lemma active_of_content: "active_of (latest_run_rows (objects rows)) S = active_ids rows S"
proof (rule set_eqI)
  fix k
  have "k \<in> active_of (latest_run_rows (objects rows)) S \<longleftrightarrow>
     (\<exists>x. map_of (latest_run_rows (objects rows)) k = Some x \<and> normalize (get (snd x) ''status'') \<in> S)"
    by (rule active_of_iff[OF distinct_latest_run_rows])
  also have "\<dots> \<longleftrightarrow> (case latest_row rows k of None \<Rightarrow> False | Some r \<Rightarrow> normalize (get r ''status'') \<in> S)"
    unfolding latest_run_rows_content[symmetric]
    by (cases "map_of (latest_run_rows (objects rows)) k") simp_all
  finally show "k \<in> active_of (latest_run_rows (objects rows)) S \<longleftrightarrow> k \<in> active_ids rows S"
    by (simp add: active_ids_def)
qed

lemma fold_pickc_cases:
  "fold (\<lambda>r p. pickc p r) xs init = Some x \<Longrightarrow> x \<in> set xs \<or> init = Some x"
  by (induction xs arbitrary: init) (auto simp: pickc_def split: option.splits if_splits)

lemma latest_row_Some:
  assumes "latest_row rows k = Some r"
  shows "r \<in> set rows \<and> stripped r ''run_id'' = k \<and> k \<noteq> []"
proof -
  from assms have k: "k \<noteq> []" by (auto simp: latest_row_def split: if_splits)
  with assms have "fold (\<lambda>r p. pickc p r) (filter (\<lambda>r. stripped r ''run_id'' = k) rows) None = Some r"
    by (simp add: latest_row_def)
  then have "r \<in> set (filter (\<lambda>r. stripped r ''run_id'' = k) rows)"
    using fold_pickc_cases by fastforce
  with k show ?thesis by simp
qed

lemma active_ids_D:
  assumes "k \<in> active_ids rows S"
  obtains r where "latest_row rows k = Some r" "normalize (get r ''status'') \<in> S"
    "stripped r ''run_id'' = k" "k \<noteq> []" "r \<in> set rows"
  using assms latest_row_Some by (auto simp: active_ids_def split: option.splits)

text \<open>keeping the whole history of the active runs\<close>

lemma latest_row_filter_active:
  "latest_row (filter (\<lambda>r. stripped r ''run_id'' \<in> A) rows) k
     = (if k \<in> A then latest_row rows k else None)"
proof -
  have "filter (\<lambda>r. stripped r ''run_id'' = k) (filter (\<lambda>r. stripped r ''run_id'' \<in> A) rows)
      = (if k \<in> A then filter (\<lambda>r. stripped r ''run_id'' = k) rows else [])"
    by (induction rows) auto
  then show ?thesis by (simp add: latest_row_def)
qed

lemma active_ids_restrict:
  assumes "\<And>k. latest_row rows2 k = (if k \<in> active_ids rows S then latest_row rows k else None)"
  shows "active_ids rows2 S = active_ids rows S"
proof (rule set_eqI)
  fix k
  show "k \<in> active_ids rows2 S \<longleftrightarrow> k \<in> active_ids rows S"
  proof (cases "k \<in> active_ids rows S")
    case True
    then have "latest_row rows2 k = latest_row rows k" using assms by simp
    then show ?thesis unfolding active_ids_def mem_Collect_eq by simp
  next
    case False
    then have "latest_row rows2 k = None" using assms by simp
    then have "k \<notin> active_ids rows2 S" unfolding active_ids_def mem_Collect_eq by simp
    with False show ?thesis by simp
  qed
qed

lemma active_ids_history:
  "active_ids (filter (\<lambda>r. stripped r ''run_id'' \<in> active_ids rows S) rows) S = active_ids rows S"
  by (rule active_ids_restrict) (rule latest_row_filter_active)

text \<open>keeping the latest row of each active run\<close>

lemma finite_active_ids: "finite (active_ids rows S)"
  unfolding active_of_content[symmetric] by (rule finite_active_of)

lemma keep_latest_content: "map snd (keep_latest (objects rows) S) = latest_rows_of rows S"
proof -
  have "snd (the (map_of (latest_run_rows (objects rows)) k)) = the (latest_row rows k)"
    if "k \<in> active_ids rows S" for k
  proof -
    from that obtain x where "map_of (latest_run_rows (objects rows)) k = Some x"
      using active_of_latest_Some[of k "objects rows" S] by (auto simp: active_of_content)
    then have "latest_row rows k = Some (snd x)"
      using latest_run_rows_content[of rows k, symmetric] by simp
    with \<open>map_of (latest_run_rows (objects rows)) k = Some x\<close> show ?thesis by simp
  qed
  then show ?thesis
    unfolding keep_latest_def latest_rows_of_def active_of_content map_map o_def
    by (intro map_cong) (simp_all add: finite_active_ids)
qed

lemma filter_key_map:
  assumes "distinct ks" and "\<And>k. k \<in> set ks \<Longrightarrow> key (f k) = k"
  shows "filter (\<lambda>r. key r = k) (map f ks) = (if k \<in> set ks then [f k] else [])"
  using assms by (induction ks) auto

lemma latest_row_latest_rows_of:
  "latest_row (latest_rows_of rows S) k
     = (if k \<in> active_ids rows S then latest_row rows k else None)"
proof -
  let ?ks = "sorted_list_of_set (active_ids rows S)"
  have key: "stripped (the (latest_row rows k')) ''run_id'' = k'" if "k' \<in> set ?ks" for k'
    using that by (auto simp: finite_active_ids elim: active_ids_D)
  have f: "filter (\<lambda>r. stripped r ''run_id'' = k) (latest_rows_of rows S)
      = (if k \<in> set ?ks then [the (latest_row rows k)] else [])"
    unfolding latest_rows_of_def
    by (rule filter_key_map) (simp_all add: key)
  show ?thesis
  proof (cases "k \<in> active_ids rows S")
    case True
    then obtain r where "latest_row rows k = Some r" "k \<noteq> []" by (auto elim: active_ids_D)
    with True f show ?thesis by (simp add: latest_row_def[of "latest_rows_of rows S"] finite_active_ids pickc_def)
  next
    case False
    with f show ?thesis by (simp add: latest_row_def[of "latest_rows_of rows S"] finite_active_ids)
  qed
qed

lemma active_ids_latest:
  "active_ids (latest_rows_of rows S) S = active_ids rows S"
  by (rule active_ids_restrict) (rule latest_row_latest_rows_of)

subsection \<open>A second archive pass\<close>

lemma split_run_registry_history_content:
  "split_run_registry rows S True =
     Inr (\<lparr>keep = filter (\<lambda>r. stripped r ''run_id'' \<in> active_ids rows S) rows,
           archive = filter (\<lambda>r. stripped r ''run_id'' \<notin> active_ids rows S) rows\<rparr>,
          active_ids rows S)"
  unfolding split_run_registry_history active_of_content by (rule refl)

lemma split_run_registry_latest_content:
  "\<exists>ar. split_run_registry rows S False =
     Inr (\<lparr>keep = latest_rows_of rows S, archive = ar\<rparr>, active_ids rows S)
     \<and> length (latest_rows_of rows S) + length ar = length rows"
proof -
  let ?ar = "map snd (filter (\<lambda>r. fst r \<notin> set (map fst (keep_latest (objects rows) S))) (objects rows))"
  have eq: "split_run_registry rows S False =
     Inr (\<lparr>keep = latest_rows_of rows S, archive = ?ar\<rparr>, active_ids rows S)"
    unfolding split_run_registry_latest active_of_content keep_latest_content by (rule refl)
  obtain res A where r: "split_run_registry rows S False = Inr (res, A)"
      "mset (keep res) + mset (archive res) = mset rows"
    using split_run_registry_partition by blast
  from r(1) eq have "res = \<lparr>keep = latest_rows_of rows S, archive = ?ar\<rparr>" by simp
  with r(2) have "mset (latest_rows_of rows S) + mset ?ar = mset rows" by simp
  then have "length (latest_rows_of rows S) + length ?ar = length rows"
    by (rule mset_length_sum)
  with eq show ?thesis by blast
qed

lemma latest_rows_of_idem: "latest_rows_of (latest_rows_of rows S) S = latest_rows_of rows S"
proof -
  have "the (latest_row (latest_rows_of rows S) k) = the (latest_row rows k)"
    if "k \<in> active_ids rows S" for k
    using that by (simp add: latest_row_latest_rows_of)
  then show ?thesis
    unfolding latest_rows_of_def[of "latest_rows_of rows S"] active_ids_latest
    unfolding latest_rows_of_def[of rows]
    by (intro map_cong) (simp_all add: finite_active_ids)
qed

lemma filter_filter_same: "filter P (filter P xs) = filter P xs"
  by (induction xs) auto

lemma filter_filter_not: "filter (\<lambda>x. \<not> P x) (filter P xs) = []"
  by (induction xs) auto

lemma split_run_registry_idem:
  assumes "split_run_registry rows S h = Inr (res, A)"
  shows "split_run_registry (keep res) S h = Inr (\<lparr>keep = keep res, archive = []\<rparr>, A)"
proof (cases h)
  case True
  let ?A = "active_ids rows S"
  let ?K = "filter (\<lambda>r. stripped r ''run_id'' \<in> ?A) rows"
  from assms True have res: "keep res = ?K" "A = ?A"
    by (auto simp: split_run_registry_history_content)
  have "split_run_registry ?K S True =
     Inr (\<lparr>keep = filter (\<lambda>r. stripped r ''run_id'' \<in> ?A) ?K,
           archive = filter (\<lambda>r. stripped r ''run_id'' \<notin> ?A) ?K\<rparr>, ?A)"
    unfolding split_run_registry_history_content active_ids_history by (rule refl)
  then have "split_run_registry ?K S True = Inr (\<lparr>keep = ?K, archive = []\<rparr>, ?A)"
    unfolding filter_filter_same filter_filter_not .
  with res True show ?thesis by simp
next
  case False
  let ?K = "latest_rows_of rows S"
  from assms False split_run_registry_latest_content[of rows S]
  have res: "keep res = ?K" "A = active_ids rows S" by auto
  obtain ar where ar: "split_run_registry ?K S False =
     Inr (\<lparr>keep = latest_rows_of ?K S, archive = ar\<rparr>, active_ids ?K S)"
     "length (latest_rows_of ?K S) + length ar = length ?K"
    using split_run_registry_latest_content[of ?K S] by blast
  from ar(2) have "ar = []" unfolding latest_rows_of_idem by simp
  with ar(1) have "split_run_registry ?K S False = Inr (\<lparr>keep = ?K, archive = []\<rparr>, active_ids rows S)"
    unfolding latest_rows_of_idem active_ids_latest by simp
  with res False show ?thesis by simp
qed

lemma superseded_ids_filter: "superseded_ids (filter P rows) \<subseteq> superseded_ids rows"
  unfolding superseded_ids_def by auto

lemma keeps_request_mono: "sp2 \<subseteq> sp1 \<Longrightarrow> keeps_request A S sp1 r \<Longrightarrow> keeps_request A S sp2 r"
  unfolding keeps_request_def by auto

lemma split_change_requests_idem:
  "split_change_requests (keep (split_change_requests rows A S)) A S
     = \<lparr>keep = keep (split_change_requests rows A S), archive = []\<rparr>"
proof -
  let ?K = "filter (keeps_request A S (superseded_ids rows)) rows"
  have all: "keeps_request A S (superseded_ids ?K) r" if "r \<in> set ?K" for r
    using that keeps_request_mono[OF superseded_ids_filter] by simp
  have "filter (keeps_request A S (superseded_ids ?K)) ?K = ?K"
    using all by (intro filter_True) blast
  moreover have "filter (\<lambda>r. \<not> keeps_request A S (superseded_ids ?K) r) ?K = []"
    using all by (simp only: filter_empty_conv) blast
  ultimately show ?thesis
    unfolding split_change_requests_eq SplitResult.select_convs by simp
qed

lemma split_by_active_runs_idem:
  "split_by_active_runs (keep (split_by_active_runs rows A)) A
     = \<lparr>keep = keep (split_by_active_runs rows A), archive = []\<rparr>"
  unfolding split_by_active_runs_eq SplitResult.select_convs filter_filter_same filter_filter_not
  by (rule refl)

text \<open>
  Claim C3. When the four splits of \<open>main\<close> are computed a second time on the rows kept
  by a first computation, with the same status sets and the same \<open>keep_run_history\<close>
  flag, the second computation returns, has the same active runs, archives no row of any of
  the four files and keeps every row.
\<close>

theorem archive_idempotent:
  assumes "split_map run_rows req_rows handoff_rows decision_rows run_statuses request_statuses history
             = Inr (sp, runs)"
  shows "\<exists>sp2. split_map (keep (run_split sp)) (keep (req_split sp)) (keep (handoff_split sp))
                  (keep (decision_split sp)) run_statuses request_statuses history
               = Inr (sp2, runs)
           \<and> archive (run_split sp2) = [] \<and> archive (req_split sp2) = []
           \<and> archive (handoff_split sp2) = [] \<and> archive (decision_split sp2) = []
           \<and> keep (run_split sp2) = keep (run_split sp) \<and> keep (req_split sp2) = keep (req_split sp)
           \<and> keep (handoff_split sp2) = keep (handoff_split sp)
           \<and> keep (decision_split sp2) = keep (decision_split sp)"
proof -
  from assms obtain rs where rs: "split_run_registry run_rows run_statuses history = Inr (rs, runs)"
    and sp: "sp = \<lparr>run_split = rs,
                 req_split = split_change_requests req_rows runs request_statuses,
                 handoff_split = split_by_active_runs handoff_rows runs,
                 decision_split = split_by_active_runs decision_rows runs\<rparr>"
    by (auto simp: split_map_def split: sum.splits)
  have second: "split_run_registry (keep rs) run_statuses history = Inr (\<lparr>keep = keep rs, archive = []\<rparr>, runs)"
    using rs by (rule split_run_registry_idem)
  show ?thesis
    unfolding sp splits.select_convs split_map_def second sum.case prod.case
    by (intro exI conjI, rule refl)
       (simp_all only: splits.select_convs SplitResult.select_convs
          split_change_requests_idem split_by_active_runs_idem)
qed

subsection \<open>Change requests\<close>

text \<open>
  Claim C2, as amended. \<open>_split_change_requests\<close> places a row in \<open>keep\<close> if and only
  if its status (trimmed, lowercased) is in the active-request-status set, its trimmed
  \<open>run_id\<close> is non-empty and in the active-run set, and its trimmed \<open>request_id\<close> is
  empty or is the trimmed \<open>supersedes_request_id\<close> of no row of the file, the row itself
  included; every other row is placed in \<open>archive\<close>. Both lists keep the file order.
\<close>

theorem split_change_requests_keep_iff:
  "keep (split_change_requests rows runs request_statuses)
     = filter (\<lambda>r. normalize (get r ''status'') \<in> request_statuses
                  \<and> stripped r ''run_id'' \<noteq> [] \<and> stripped r ''run_id'' \<in> runs
                  \<and> \<not> (stripped r ''request_id'' \<noteq> []
                        \<and> (\<exists>q \<in> set rows. stripped q ''supersedes_request_id''
                                             = stripped r ''request_id''))) rows
   \<and> archive (split_change_requests rows runs request_statuses)
     = filter (\<lambda>r. \<not> (normalize (get r ''status'') \<in> request_statuses
                  \<and> stripped r ''run_id'' \<noteq> [] \<and> stripped r ''run_id'' \<in> runs
                  \<and> \<not> (stripped r ''request_id'' \<noteq> []
                        \<and> (\<exists>q \<in> set rows. stripped q ''supersedes_request_id''
                                             = stripped r ''request_id'')))) rows"
proof -
  have "keeps_request runs request_statuses (superseded_ids rows) r
      \<longleftrightarrow> (normalize (get r ''status'') \<in> request_statuses
                  \<and> stripped r ''run_id'' \<noteq> [] \<and> stripped r ''run_id'' \<in> runs
                  \<and> \<not> (stripped r ''request_id'' \<noteq> []
                        \<and> (\<exists>q \<in> set rows. stripped q ''supersedes_request_id''
                                             = stripped r ''request_id'')))" for r
    unfolding keeps_request_def superseded_ids_def by (auto simp: image_iff)
  then have "keeps_request runs request_statuses (superseded_ids rows)
      = (\<lambda>r. normalize (get r ''status'') \<in> request_statuses
                  \<and> stripped r ''run_id'' \<noteq> [] \<and> stripped r ''run_id'' \<in> runs
                  \<and> \<not> (stripped r ''request_id'' \<noteq> []
                        \<and> (\<exists>q \<in> set rows. stripped q ''supersedes_request_id''
                                             = stripped r ''request_id'')))"
    by (intro ext)
  then show ?thesis
    unfolding split_change_requests_eq SplitResult.select_convs by simp
qed

text \<open>
  Claim C2 fails for a row that names itself in \<open>supersedes_request_id\<close>: the file has
  one row, with an active status and an active run, so no other row references it, and the
  row is archived.
\<close>

theorem split_change_requests_counterexample:
  "length ex_self_rows = 1
   \<and> normalize (get (ex_self_rows ! 0) ''status'') \<in> ACTIVE_REQUEST_STATUSES_DEFAULT
   \<and> stripped (ex_self_rows ! 0) ''run_id'' \<in> {''R1''}
   \<and> keep (split_change_requests ex_self_rows {''R1''} ACTIVE_REQUEST_STATUSES_DEFAULT) = []
   \<and> archive (split_change_requests ex_self_rows {''R1''} ACTIVE_REQUEST_STATUSES_DEFAULT)
       = ex_self_rows"
  by code_simp

text \<open>
  The amended claim C2 at the example of the claim: of \<open>CR-1\<close> and \<open>CR-2\<close>, which
  supersedes \<open>CR-1\<close>, both open in the active run \<open>R1\<close>, \<open>CR-2\<close> is kept and
  \<open>CR-1\<close> is archived.
\<close>

theorem split_change_requests_keep_iff_witness:
  "keep (split_change_requests ex_req_rows {''R1''} ACTIVE_REQUEST_STATUSES_DEFAULT)
     = [ex_req_rows ! 1]
   \<and> archive (split_change_requests ex_req_rows {''R1''} ACTIVE_REQUEST_STATUSES_DEFAULT)
     = [ex_req_rows ! 0]"
proof -
  have "filter (\<lambda>r. normalize (get r ''status'') \<in> ACTIVE_REQUEST_STATUSES_DEFAULT
                  \<and> stripped r ''run_id'' \<noteq> [] \<and> stripped r ''run_id'' \<in> {''R1''}
                  \<and> \<not> (stripped r ''request_id'' \<noteq> []
                        \<and> (\<exists>q \<in> set ex_req_rows. stripped q ''supersedes_request_id''
                                             = stripped r ''request_id''))) ex_req_rows
       = [ex_req_rows ! 1]"
    by code_simp
  moreover have "filter (\<lambda>r. \<not> (normalize (get r ''status'') \<in> ACTIVE_REQUEST_STATUSES_DEFAULT
                  \<and> stripped r ''run_id'' \<noteq> [] \<and> stripped r ''run_id'' \<in> {''R1''}
                  \<and> \<not> (stripped r ''request_id'' \<noteq> []
                        \<and> (\<exists>q \<in> set ex_req_rows. stripped q ''supersedes_request_id''
                                             = stripped r ''request_id'')))) ex_req_rows
       = [ex_req_rows ! 0]"
    by code_simp
  ultimately show ?thesis
    using split_change_requests_keep_iff[of ex_req_rows "{''R1''}" ACTIVE_REQUEST_STATUSES_DEFAULT]
    by simp
qed

text \<open>
  Claim C3 at the example files: the first pass archives both rows of run \<open>R9\<close>, the
  second pass archives nothing.
\<close>

theorem archive_idempotent_witness:
  "case split_map ex_run_rows ex_req_rows ex_handoff_rows ex_decision_rows
       ACTIVE_RUN_STATUSES_DEFAULT ACTIVE_REQUEST_STATUSES_DEFAULT False of
     Inl e \<Rightarrow> False
   | Inr (sp, runs) \<Rightarrow>
       archive (run_split sp) = [ex_run_rows ! 1, ex_run_rows ! 2]
       \<and> (\<exists>sp2. split_map (keep (run_split sp)) (keep (req_split sp)) (keep (handoff_split sp))
                  (keep (decision_split sp)) ACTIVE_RUN_STATUSES_DEFAULT
                  ACTIVE_REQUEST_STATUSES_DEFAULT False = Inr (sp2, runs)
              \<and> archive (run_split sp2) = [] \<and> archive (req_split sp2) = []
              \<and> archive (handoff_split sp2) = [] \<and> archive (decision_split sp2) = [])"
proof -
  have e: "split_map ex_run_rows ex_req_rows ex_handoff_rows ex_decision_rows
       ACTIVE_RUN_STATUSES_DEFAULT ACTIVE_REQUEST_STATUSES_DEFAULT False
     = Inr (\<lparr>run_split = \<lparr>keep = [ex_run_rows ! 0], archive = [ex_run_rows ! 1, ex_run_rows ! 2]\<rparr>,
             req_split = \<lparr>keep = [ex_req_rows ! 1], archive = [ex_req_rows ! 0]\<rparr>,
             handoff_split = \<lparr>keep = [ex_handoff_rows ! 0], archive = [ex_handoff_rows ! 1]\<rparr>,
             decision_split = \<lparr>keep = [ex_decision_rows ! 1], archive = [ex_decision_rows ! 0]\<rparr>\<rparr>,
            {''R1''})"
    by code_simp
  from archive_idempotent[OF e]
  have "\<exists>sp2. split_map [ex_run_rows ! 0] [ex_req_rows ! 1] [ex_handoff_rows ! 0]
                  [ex_decision_rows ! 1] ACTIVE_RUN_STATUSES_DEFAULT
                  ACTIVE_REQUEST_STATUSES_DEFAULT False = Inr (sp2, {''R1''})
              \<and> archive (run_split sp2) = [] \<and> archive (req_split sp2) = []
              \<and> archive (handoff_split sp2) = [] \<and> archive (decision_split sp2) = []"
    unfolding splits.select_convs SplitResult.select_convs by blast
  then have "[ex_run_rows ! 1, ex_run_rows ! 2] = [ex_run_rows ! 1, ex_run_rows ! 2]
       \<and> (\<exists>sp2. split_map [ex_run_rows ! 0] [ex_req_rows ! 1] [ex_handoff_rows ! 0]
                  [ex_decision_rows ! 1] ACTIVE_RUN_STATUSES_DEFAULT
                  ACTIVE_REQUEST_STATUSES_DEFAULT False = Inr (sp2, {''R1''})
              \<and> archive (run_split sp2) = [] \<and> archive (req_split sp2) = []
              \<and> archive (handoff_split sp2) = [] \<and> archive (decision_split sp2) = [])"
    by (rule conjI[OF refl])
  then show ?thesis
    unfolding e sum.case prod.case splits.select_convs SplitResult.select_convs .
qed

subsection \<open>Tickets\<close>











subsection \<open>Examples of tickets and migration\<close>


text \<open>
  Claim C6 does not hold of the migration helper. For a queue in which \<open>CR-BLUE-0001\<close>
  occurs twice, the helper appends one row, a copy of the second row whose
  \<open>supersedes_request_id\<close> is the row's own \<open>request_id\<close>; on the queue with that row
  appended, \<open>validate_supersedes\<close> reports \<open>SUPERSEDES_SELF\<close> for row 3.
\<close>

theorem backfill_row_supersedes_itself:
  "append_rows dup_rows = Inr [dup_appended]
   \<and> stripped dup_appended ''supersedes_request_id'' = stripped dup_appended ''request_id''
   \<and> filter (\<lambda>x. code x = ''SUPERSEDES_SELF'')
        (validate_supersedes ''data/team_ops/change_request_queue.csv''
           (with_row_number (dup_rows @ [dup_appended])) ''request_id'' ''supersedes_request_id'' [])
      = [supersedes_self_issue ''data/team_ops/change_request_queue.csv'' ''request_id''
           ''supersedes_request_id'' 3 ''CR-BLUE-0001'']"
  by code_simp

text \<open>
  The first loop of the helper, on a legacy ID: the appended row carries the canonical ID and
  supersedes the legacy ID, which is the ID of an earlier row.
\<close>

lemma legacy_example:
  "append_rows legacy_rows =
     Inr [\<lparr>cells = [(''request_id'', Some ''CR-BLUE-0001''), (''run_id'', Some ''R1''),
                (''status'', Some ''open''), (''statement'', Some canonical_statement),
                (''supersedes_request_id'', Some ''CR-0001-BLUE'')], rest = []\<rparr>]"
  by code_simp

subsection \<open>The exit code of the cleanup tool\<close>














text \<open>
  A run of \<open>main\<close> on the example files: the live run registry keeps the row of
  \<open>R1\<close>, both rows of \<open>R9\<close> go to the archive, the backup holds the file as it was,
  and the index gets one row.
\<close>

lemma main_example_run:
  "case main ex_args ex_clock fs_complete of
     Inl e \<Rightarrow> False
   | Inr (c, f1, out) \<Rightarrow>
       c = 0
       \<and> csv_files f1 ''/repo/data/team_ops/run_registry.csv''
           = Some [[''run_id'', ''created_utc'', ''status''], [''R1'', ''2025-01-01'', ''active'']]
       \<and> csv_files f1 ''/repo/data/team_ops/archive/20250103T000000Z/archived_rows/run_registry.csv''
           = Some [[''run_id'', ''created_utc'', ''status''],
                   [''R9'', ''2025-01-01'', ''active''], [''R9'', ''2025-01-02'', ''resolved'']]
       \<and> csv_files f1 ''/repo/data/team_ops/archive/20250103T000000Z/backup/run_registry.csv''
           = csv_files fs_complete ''/repo/data/team_ops/run_registry.csv''
       \<and> csv_files f1 ''/repo/data/team_ops/change_request_queue.csv''
           = Some [[''request_id'', ''run_id'', ''status'', ''supersedes_request_id''],
                   [''CR-2'', ''R1'', ''open'', ''CR-1'']]
       \<and> csv_files f1 ''/repo/data/team_ops/archive/archive_index.csv''
           = Some [index_header,
                   [''2025-01-03T00:00:00+00:00'', ''/repo/data/team_ops/archive/20250103T000000Z'',
                    ''R1'', ''2'', ''1'', ''1'', ''1'']]"
  by code_simp

subsection \<open>Writing and reading a CSV file\<close>

lemma build_Nil: "build [] acc = acc"
  by (simp add: build_def)

lemma build_Cons: "build ((k, v) # kvs) acc = build kvs (AList.update k (Some v) acc)"
  by (simp add: build_def)

lemma build_keys:
  "map fst kvs = map fst kvs2 \<Longrightarrow> map fst acc = map fst acc2
     \<Longrightarrow> map fst (build kvs acc) = map fst (build kvs2 acc2)"
proof (induction kvs arbitrary: kvs2 acc acc2)
  case Nil
  then show ?case by (simp add: build_Nil)
next
  case (Cons kv kvs)
  obtain k v where kv: "kv = (k, v)" by (cases kv)
  from Cons.prems(1) kv obtain v2 rest2 where kvs2: "kvs2 = (k, v2) # rest2" "map fst kvs = map fst rest2"
    by (cases kvs2) auto
  have "map fst (AList.update k (Some v) acc) = map fst (AList.update k (Some v2) acc2)"
    using Cons.prems(2) by (simp add: update_keys)
  then show ?case
    unfolding kv kvs2 build_Cons by (rule Cons.IH[OF kvs2(2)])
qed

lemma build_map_of:
  "map_of (build kvs acc) k =
     (case map_of (rev kvs) k of None \<Rightarrow> map_of acc k | Some v \<Rightarrow> Some (Some v))"
proof (induction kvs arbitrary: acc)
  case Nil
  then show ?case by (simp add: build_Nil)
next
  case (Cons kv kvs)
  obtain k2 v where kv: "kv = (k2, v)" by (cases kv)
  show ?case
    unfolding kv build_Cons Cons.IH
    by (auto simp: update_conv' map_add_def split: option.splits)
qed

lemma build_distinct: "distinct (map fst acc) \<Longrightarrow> distinct (map fst (build kvs acc))"
proof (induction kvs arbitrary: acc)
  case Nil
  then show ?case by (simp add: build_Nil)
next
  case (Cons kv kvs)
  obtain k v where kv: "kv = (k, v)" by (cases kv)
  show ?case unfolding kv build_Cons
    by (rule Cons.IH) (simp add: distinct_update Cons.prems)
qed

lemma alist_canonical:
  "distinct (map fst xs) \<Longrightarrow> map (\<lambda>k. (k, the (map_of xs k))) (map fst xs) = xs"
proof (induction xs)
  case Nil
  then show ?case by simp
next
  case (Cons x xs)
  obtain k v where x: "x = (k, v)" by (cases x)
  with Cons.prems have nk: "k \<notin> fst ` set xs" and d: "distinct (map fst xs)" by auto
  have "map (\<lambda>q. (q, the (map_of ((k, v) # xs) q))) (map fst xs)
      = map (\<lambda>q. (q, the (map_of xs q))) (map fst xs)"
    using nk by (intro map_cong) auto
  with Cons.IH[OF d] show ?case unfolding x by simp
qed

lemma alist_eqI:
  assumes "distinct (map fst xs)" "distinct (map fst ys)"
    and "map fst xs = map fst ys" and "map_of xs = map_of ys"
  shows "xs = ys"
proof -
  have "xs = map (\<lambda>k. (k, the (map_of xs k))) (map fst xs)"
    using alist_canonical[OF assms(1)] by simp
  also have "\<dots> = map (\<lambda>k. (k, the (map_of ys k))) (map fst ys)"
    unfolding assms(3,4) by (rule refl)
  also have "\<dots> = ys" by (rule alist_canonical[OF assms(2)])
  finally show ?thesis .
qed

lemma to_dict_full:
  "length record = length header \<Longrightarrow>
     to_dict header record = \<lparr>cells = build (zip header record) [], rest = []\<rparr>"
  by (simp add: to_dict_def build_def)

lemma map_of_rev_zip_map:
  "map_of (rev (zip xs (map g xs))) k = (if k \<in> set xs then Some (g k) else None)"
proof -
  have "rev (zip xs (map g xs)) = map (\<lambda>x. (x, g x)) (rev xs)"
    by (induction xs) (simp_all add: zip_map2)
  then show ?thesis
    by (simp add: map_of_map_restrict restrict_map_def)
qed

lemma to_dict_dict_to_list:
  assumes "length record = length header"
  shows "to_dict header (dict_to_list header (to_dict header record)) = to_dict header record"
proof -
  let ?r = "to_dict header record"
  let ?g = "\<lambda>key. or_empty (get ?r key)"
  have cells: "cells ?r = build (zip header record) []"
    using assms by (simp add: to_dict_full)
  have keys: "map fst (build (zip header (map ?g header)) []) = map fst (build (zip header record) [])"
    using assms by (intro build_keys) simp_all
  have keyset: "fst ` set (zip header record) = set header"
    using assms by (metis map_fst_zip set_map)
  have maps: "map_of (build (zip header (map ?g header)) []) k = map_of (build (zip header record) []) k" for k
  proof (cases "k \<in> set header")
    case True
    then have "k \<in> set (map fst (rev (zip header record)))"
      using keyset by simp
    then obtain v where v: "map_of (rev (zip header record)) k = Some v"
      by (metis map_of_eq_None_iff not_Some_eq set_map)
    then have "?g k = v"
      by (simp add: get_def cells build_map_of or_empty_def)
    with True v show ?thesis
      unfolding build_map_of map_of_rev_zip_map by simp
  next
    case False
    then have "k \<notin> set (map fst (rev (zip header record)))"
      using keyset by simp
    then have "map_of (rev (zip header record)) k = None"
      by (metis map_of_eq_None_iff set_map)
    with False show ?thesis
      unfolding build_map_of map_of_rev_zip_map by simp
  qed
  have "build (zip header (map ?g header)) [] = build (zip header record) []"
    by (rule alist_eqI) (simp_all add: build_distinct keys maps ext)
  then show ?thesis
    unfolding dict_to_list_def using assms by (simp add: to_dict_full)
qed

lemma dict_to_list_nonempty: "header \<noteq> [] \<Longrightarrow> dict_to_list header r \<noteq> []"
  by (simp add: dict_to_list_def)

text \<open>
  Claim C7, as amended. When every row to be written was read from a line with exactly one
  cell per column of the header, \<open>_read_csv\<close> after \<open>_write_csv\<close> returns the header
  in its original order and exactly the rows written, in the same order.
\<close>

theorem write_read_round_trip:
  assumes "\<forall>r \<in> set rows. \<exists>record. record \<noteq> [] \<and> length record = length header
                                   \<and> r = to_dict header record"
  shows "read_csv (write_csv f path header rows) path = Inr (header, rows)"
proof -
  have one: "dict_to_list header r \<noteq> [] \<and> to_dict header (dict_to_list header r) = r"
    if "r \<in> set rows" for r
  proof -
    from that assms obtain cs where rec: "cs \<noteq> []" "length cs = length header"
        "r = to_dict header cs" by blast
    then have "header \<noteq> []" by auto
    with rec show ?thesis
      by (simp add: dict_to_list_nonempty to_dict_dict_to_list)
  qed
  then have "filter (\<lambda>r. r \<noteq> []) (map (dict_to_list header) rows) = map (dict_to_list header) rows"
    by (intro filter_True) auto
  moreover have "map (to_dict header) (map (dict_to_list header) rows) = rows"
    unfolding map_map o_def using one by (intro map_idI) simp
  ultimately show ?thesis
    by (simp add: read_csv_def write_csv_def dict_reader_def)
qed

text \<open>
  Claim C7 fails for a row read from a short line. The handoff log has three columns and a
  line with two cells, so \<open>note\<close> is \<open>None\<close> in the row; the row is kept, written with
  an empty cell and read back with \<open>note\<close> the empty string.
\<close>

theorem round_trip_counterexample:
  "read_csv fs_short_line handoff_path = Inr ([''entry_id'', ''run_id'', ''note''], [short_row])
   \<and> keep (split_by_active_runs [short_row] {''R1''}) = [short_row]
   \<and> read_csv (write_csv fs_short_line handoff_path [''entry_id'', ''run_id'', ''note'']
                 (keep (split_by_active_runs [short_row] {''R1''}))) handoff_path
       = Inr ([''entry_id'', ''run_id'', ''note''], [short_row_read_back])
   \<and> short_row_read_back \<noteq> short_row"
  by code_simp

text \<open>
  The amended claim C7 at a handoff row with one cell per column.
\<close>

theorem write_read_round_trip_witness:
  "read_csv (write_csv fs_complete handoff_path [''entry_id'', ''run_id'']
               [to_dict [''entry_id'', ''run_id''] [''H1'', ''R1'']]) handoff_path
     = Inr ([''entry_id'', ''run_id''], [to_dict [''entry_id'', ''run_id''] [''H1'', ''R1'']])"
proof -
  have "\<forall>r \<in> set [to_dict [''entry_id'', ''run_id''] [''H1'', ''R1'']].
          \<exists>record. record \<noteq> [] \<and> length record = length [''entry_id'', ''run_id'']
                   \<and> r = to_dict [''entry_id'', ''run_id''] record"
    by (auto intro!: exI[of _ "[''H1'', ''R1'']"])
  then show ?thesis by (rule write_read_round_trip)
qed

end
